theory Spec2Isabelle
  imports Complex_Main
begin

section \<open>Python and numpy primitives used by \<open>azcam/image.py\<close>\<close>

text \<open>
  Exceptions are values. \<open>AzcamError\<close> is the only exception the class raises itself;
  the others are raised by Python indexing and by numpy (shape errors).
\<close>

datatype error = AzcamError string | IndexError | ValueError | TypeError

text \<open>
  Indexing a sequence of length \<open>n\<close> with the integer \<open>i\<close>: a negative index counts from the
  end, an index outside \<open>-n .. n-1\<close> raises IndexError.
\<close>

definition norm_index :: "nat \<Rightarrow> int \<Rightarrow> error + nat" where
  "norm_index n i =
     (let j = (if i < 0 then i + int n else i)
      in if 0 \<le> j \<and> j < int n then Inr (nat j) else Inl IndexError)"

definition py_index :: "'a list \<Rightarrow> int \<Rightarrow> error + 'a" where
  "py_index xs i = (case norm_index (length xs) i of Inl e \<Rightarrow> Inl e | Inr j \<Rightarrow> Inr (xs ! j))"

text \<open>
  A slice bound is clamped, never an error: a negative bound counts from the end and stops
  at 0, a bound beyond the length stops at the length. \<open>xs[a:b]\<close> is empty when the
  clamped stop is not after the clamped start.
\<close>

definition slice_bound :: "nat \<Rightarrow> int \<Rightarrow> nat" where
  "slice_bound n i =
     (if i < 0 then (if i + int n < 0 then 0 else nat (i + int n))
      else if int n < i then n else nat i)"

definition py_slice :: "'a list \<Rightarrow> int \<Rightarrow> int \<Rightarrow> 'a list" where
  "py_slice xs a b =
     (let lo = slice_bound (length xs) a; hi = slice_bound (length xs) b
      in take (hi - lo) (drop lo xs))"

text \<open>
  numpy's \<open>row[a:b] = v\<close> for one-dimensional \<open>v\<close>: \<open>v\<close> must have the length of the target
  slice, or length 1 (it is then broadcast over the slice); anything else raises
  ValueError and writes nothing.
\<close>

definition broadcast :: "nat \<Rightarrow> 'a list \<Rightarrow> 'a list" where
  "broadcast n v = (if length v = n then v else replicate n (hd v))"

definition setitem_slice :: "real list \<Rightarrow> int \<Rightarrow> int \<Rightarrow> real list \<Rightarrow> error + real list" where
  "setitem_slice row a b v =
     (let lo = slice_bound (length row) a; hi = slice_bound (length row) b; n = hi - lo
      in if length v = n \<or> length v = 1
         then Inr (take lo row @ broadcast n v @ drop (lo + n) row)
         else Inl ValueError)"

text \<open>\<open>range(a, b)\<close>: the integers from \<open>a\<close> up to \<open>b - 1\<close>, none when \<open>b \<le> a\<close>.\<close>

definition py_range :: "int \<Rightarrow> int \<Rightarrow> int list" where
  "py_range a b = map (\<lambda>k. a + int k) [0..<nat (b - a)]"

text \<open>
  A \<open>for\<close> loop whose body may raise: the loop stops at the first exception and the state
  reached so far is kept beside it, as the partly updated object is in Python.
\<close>

fun py_for :: "'i list \<Rightarrow> ('i \<Rightarrow> 's \<Rightarrow> error option \<times> 's) \<Rightarrow> 's \<Rightarrow> error option \<times> 's" where
  "py_for [] body s = (None, s)"
| "py_for (i # is) body s =
     (case body i s of
        (None, s') \<Rightarrow> py_for is body s'
      | (Some e, s') \<Rightarrow> (Some e, s'))"

text \<open>
  A numpy array of pixel values, one- or two-dimensional. A two-dimensional array of shape
  \<open>(r, c)\<close> is the list of its \<open>r\<close> rows, each of length \<open>c\<close>. Pixel values are reals: the
  float32/float64 distinction of the source is not modelled, and arithmetic is exact.
\<close>

datatype ndarray = Flat "real list" | Grid "real list list"

fun ravel :: "ndarray \<Rightarrow> real list" where
  "ravel (Flat xs) = xs"
| "ravel (Grid rows) = concat rows"

definition array_size :: "ndarray \<Rightarrow> nat" where
  "array_size a = length (ravel a)"

definition has_shape :: "ndarray \<Rightarrow> nat \<Rightarrow> nat \<Rightarrow> bool" where
  "has_shape a r c =
     (case a of Flat xs \<Rightarrow> False
      | Grid rows \<Rightarrow> length rows = r \<and> list_all (\<lambda>row. length row = c) rows)"

definition split_rows :: "real list \<Rightarrow> nat \<Rightarrow> nat \<Rightarrow> real list list" where
  "split_rows xs r c = map (\<lambda>i. take c (drop (i * c) xs)) [0..<r]"

text \<open>
  \<open>numpy.empty(shape=[r, c])\<close>: negative dimensions raise ValueError; the cells hold
  whatever the memory held, given here by \<open>mem\<close>.
\<close>

definition numpy_empty :: "(nat \<Rightarrow> real) \<Rightarrow> int \<Rightarrow> int \<Rightarrow> error + ndarray" where
  "numpy_empty mem r c =
     (if r < 0 \<or> c < 0 then Inl ValueError
      else Inr (Grid (split_rows (map mem [0..<nat r * nat c]) (nat r) (nat c))))"

text \<open>
  \<open>numpy.resize(a, n)\<close>: a new one-dimensional array of \<open>n\<close> cells holding the flattened
  \<open>a\<close>, repeated as often as needed; zeros when \<open>a\<close> is empty; ValueError when \<open>n < 0\<close>.
\<close>

definition numpy_resize :: "ndarray \<Rightarrow> int \<Rightarrow> error + ndarray" where
  "numpy_resize a n =
     (if n < 0 then Inl ValueError
      else if ravel a = [] then Inr (Flat (replicate (nat n) 0))
      else Inr (Flat (take (nat n) (concat (replicate (nat n) (ravel a))))))"

text \<open>
  \<open>a.reshape((r, c))\<close>: the cells are kept in order; the product of the dimensions must be
  the size of \<open>a\<close>. One dimension may be \<open>-1\<close> and is then inferred from the other, which
  must be positive and divide the size. Any other negative dimension raises ValueError.
\<close>

definition reshape :: "ndarray \<Rightarrow> int \<Rightarrow> int \<Rightarrow> error + ndarray" where
  "reshape a r c =
     (let xs = ravel a; n = length xs
      in if 0 \<le> r \<and> 0 \<le> c then
           (if nat r * nat c = n then Inr (Grid (split_rows xs (nat r) (nat c)))
            else Inl ValueError)
         else if r = -1 \<and> 0 < c then
           (if n mod nat c = 0 then Inr (Grid (split_rows xs (n div nat c) (nat c)))
            else Inl ValueError)
         else if c = -1 \<and> 0 < r then
           (if n mod nat r = 0 then Inr (Grid (split_rows xs (nat r) (n div nat r)))
            else Inl ValueError)
         else Inl ValueError)"

section \<open>The image object\<close>

text \<open>
  The attributes of \<open>FocalPlane\<close> that \<open>Image.assemble\<close> and \<open>Image.set_scaling\<close> read.
  \<open>jpg_ext\<close> and \<open>amp_cfg\<close> are integer sequences (\<open>jpg_ext\<close> holds amplifier numbers
  counted from 1, \<open>amp_cfg\<close> the flip code of each amplifier). Their entries are Python
  integers here: \<open>Ext[currExt] - 1\<close> is plain integer subtraction, which is what the source
  computes for every amplifier number from 1 on, whatever the integer type of the array.
\<close>

record focalplane =
  numcols_image :: int
  numrows_image :: int
  numcols_amp :: int
  numrows_amp :: int
  numcols_underscan :: int
  numcols_overscan :: int
  numrows_underscan :: int
  numrows_overscan :: int
  numamps_x :: int
  numamps_y :: int
  numamps_image :: int
  num_ser_amps_det :: int
  num_par_amps_det :: int
  jpg_ext :: "int list"
  amp_cfg :: "int list"

text \<open>
  The attributes of \<open>Image\<close> that the assembly uses. Flags are Python integers (0 or 1),
  tested for truth (\<open>\<noteq> 0\<close>) or compared with 1 as the source does. \<open>lineLen\<close>,
  \<open>startLine\<close> and \<open>stopLine\<close> do not exist before the first assembly (\<open>None\<close>), and neither
  does \<open>num_extensions\<close> before a file is read or \<open>set_scaling\<close> is called.
\<close>

record image =
  is_valid :: int
  toggle :: int
  size_x :: int
  size_y :: int
  buffer :: ndarray
  from_file :: int
  scales :: "real list"
  offsets :: "real list"
  data :: "real list list"
  trim :: int
  assembled :: int
  trimmed :: int
  asmsize :: "int \<times> int"
  fp :: focalplane
  lineLen :: "int option"
  startLine :: "int option"
  stopLine :: "int option"
  num_extensions :: "int option"

text \<open>What a method call does: it returns, or raises, and either way leaves the object in a state.\<close>

datatype outcome = Returned image | Raised error image

fun final_state :: "outcome \<Rightarrow> image" where
  "final_state (Returned s) = s"
| "final_state (Raised e s) = s"

section \<open>\<open>Image.assemble\<close>\<close>

text \<open>The four margin locals of \<open>assemble\<close>, set from the focal plane when \<open>trim == 1\<close>, else 0.\<close>

record margins =
  prescan1 :: int
  overscan1 :: int
  prescan2 :: int
  overscan2 :: int

definition margins_of :: "int \<Rightarrow> image \<Rightarrow> margins" where
  "margins_of trm s =
     (if trm = 1 then
        \<lparr>prescan1 = numcols_underscan (fp s), overscan1 = numcols_overscan (fp s),
         prescan2 = numrows_underscan (fp s), overscan2 = numrows_overscan (fp s)\<rparr>
      else \<lparr>prescan1 = 0, overscan1 = 0, prescan2 = 0, overscan2 = 0\<rparr>)"

definition dstAmpX :: "image \<Rightarrow> margins \<Rightarrow> int" where
  "dstAmpX s m = numcols_amp (fp s) - prescan1 m - overscan1 m"

definition dstAmpY :: "image \<Rightarrow> margins \<Rightarrow> int" where
  "dstAmpY s m = numrows_amp (fp s) - prescan2 m - overscan2 m"

text \<open>
  The start \<open>posX\<close> of the source segment inside the amplifier's flat pixel sequence, for
  each flip code (lines 286, 295, 304 and 315 of the source), and whether the segment is
  reversed (\<open>[::-1]\<close>, flip codes 1 and 3).
\<close>

definition posX :: "image \<Rightarrow> margins \<Rightarrow> int \<Rightarrow> int \<Rightarrow> int" where
  "posX s m flip srcLine =
     (if flip = 0 \<or> flip = 1 then srcLine * numcols_amp (fp s) + prescan1 m
      else if flip = 2 then
        (numrows_amp (fp s) - srcLine - overscan2 m - 1) * numcols_amp (fp s) + prescan1 m
      else (numrows_amp (fp s) - srcLine - prescan2 m - 1) * numcols_amp (fp s) + prescan1 m)"

definition reversed :: "int \<Rightarrow> bool" where
  "reversed flip = (flip = 1 \<or> flip = 3)"

definition calibrate :: "real \<Rightarrow> real \<Rightarrow> real list \<Rightarrow> real list" where
  "calibrate off sc seg = map (\<lambda>x. (x - off) * sc) seg"

text \<open>
  The statement
  \<open>self.buffer[line][lineStart : lineStart + dstAmpX] = (self.data[indx][posX : posX + dstAmpX] - Offsets[indx]) * Scales[indx]\<close>
  (with \<open>[::-1]\<close> after the source slice when \<open>rv\<close>), evaluated in Python's order: the right
  side first, then the target row, then the slice assignment. Indexing a one-dimensional
  buffer gives a scalar, which has no item assignment (TypeError).
\<close>

definition write_segment ::
  "image \<Rightarrow> int \<Rightarrow> int \<Rightarrow> int \<Rightarrow> bool \<Rightarrow> int \<Rightarrow> int \<Rightarrow> ndarray \<Rightarrow> error + ndarray" where
  "write_segment s dax indx px rv line lineStart buf =
     (case py_index (data s) indx of
        Inl e \<Rightarrow> Inl e
      | Inr amp \<Rightarrow>
         (let seg = py_slice amp px (px + dax);
              seg' = (if rv then rev seg else seg)
          in (case py_index (offsets s) indx of
                Inl e \<Rightarrow> Inl e
              | Inr off \<Rightarrow>
                 (case py_index (scales s) indx of
                    Inl e \<Rightarrow> Inl e
                  | Inr sc \<Rightarrow>
                     (case buf of
                        Flat xs \<Rightarrow>
                          (case py_index xs line of Inl e \<Rightarrow> Inl e | Inr x \<Rightarrow> Inl TypeError)
                      | Grid rows \<Rightarrow>
                          (case norm_index (length rows) line of
                             Inl e \<Rightarrow> Inl e
                           | Inr l \<Rightarrow>
                              (case setitem_slice (rows ! l) lineStart (lineStart + dax)
                                      (calibrate off sc seg') of
                                 Inl e \<Rightarrow> Inl e
                               | Inr row' \<Rightarrow> Inr (Grid (rows[l := row'])))))))))"

text \<open>
  The body of the innermost loop (lines 280 to 321): one amplifier's segment of one
  destination line. The state is the buffer and the column cursor \<open>lineStart\<close>. The four
  \<open>if flip == k\<close> statements test a value that does not change between them, so at most
  one of them runs; for any other flip code none runs and nothing changes. The local counter
  \<open>pixNum\<close> is never read and is left out.
\<close>

definition copy_ext ::
  "image \<Rightarrow> margins \<Rightarrow> int \<Rightarrow> int \<Rightarrow> int \<Rightarrow> ndarray \<times> int \<Rightarrow> error option \<times> (ndarray \<times> int)" where
  "copy_ext s m line srcLine currExt st =
     (case st of (buf, lineStart) \<Rightarrow>
       (case py_index (jpg_ext (fp s)) currExt of
          Inl e \<Rightarrow> (Some e, st)
        | Inr x \<Rightarrow>
           (let indx = x - 1
            in (case py_index (amp_cfg (fp s)) indx of
                  Inl e \<Rightarrow> (Some e, st)
                | Inr flip \<Rightarrow>
                   (if flip = 0 \<or> flip = 1 \<or> flip = 2 \<or> flip = 3 then
                      (case write_segment s (dstAmpX s m) indx (posX s m flip srcLine)
                              (reversed flip) line lineStart buf of
                         Inl e \<Rightarrow> (Some e, st)
                       | Inr buf' \<Rightarrow>
                          (None, (buf', lineStart + (numcols_amp (fp s) - prescan1 m - overscan1 m))))
                    else (None, st))))))"

text \<open>
  The right-hand side that \<open>copy_ext\<close> computes for the amplifier at position \<open>currExt\<close> and
  source line \<open>srcLine\<close>: the extracted source segment, reversed for flip codes 1 and 3,
  calibrated with the amplifier's offset and scale.
\<close>

definition segment_value :: "image \<Rightarrow> margins \<Rightarrow> int \<Rightarrow> int \<Rightarrow> error + real list" where
  "segment_value s m srcLine currExt =
     (case py_index (jpg_ext (fp s)) currExt of
        Inl e \<Rightarrow> Inl e
      | Inr x \<Rightarrow>
         (case py_index (amp_cfg (fp s)) (x - 1) of
            Inl e \<Rightarrow> Inl e
          | Inr flip \<Rightarrow>
             (case py_index (data s) (x - 1) of
                Inl e \<Rightarrow> Inl e
              | Inr amp \<Rightarrow>
                 (case py_index (offsets s) (x - 1) of
                    Inl e \<Rightarrow> Inl e
                  | Inr off \<Rightarrow>
                     (case py_index (scales s) (x - 1) of
                        Inl e \<Rightarrow> Inl e
                      | Inr sc \<Rightarrow>
                         (let seg = py_slice amp (posX s m flip srcLine)
                                      (posX s m flip srcLine + dstAmpX s m)
                          in Inr (calibrate off sc (if reversed flip then rev seg else seg))))))))"

text \<open>
  The loop over the destination lines of one parallel group (lines 271 to 323): the state is
  the buffer and \<open>srcLine\<close>, which is incremented after each line; \<open>lineStart\<close> restarts at 0
  on each line.
\<close>

definition copy_line ::
  "image \<Rightarrow> margins \<Rightarrow> int \<Rightarrow> int \<Rightarrow> ndarray \<times> int \<Rightarrow> error option \<times> (ndarray \<times> int)" where
  "copy_line s m extBase line st =
     (case st of (buf, srcLine) \<Rightarrow>
       (case py_for (py_range extBase (extBase + num_ser_amps_det (fp s)))
               (copy_ext s m line srcLine) (buf, 0) of
          (Some e, (buf', lineStart')) \<Rightarrow> (Some e, (buf', srcLine))
        | (None, (buf', lineStart')) \<Rightarrow> (None, (buf', srcLine + 1))))"

definition copy_group :: "image \<Rightarrow> margins \<Rightarrow> int \<Rightarrow> ndarray \<Rightarrow> error option \<times> ndarray" where
  "copy_group s m parAmps buf =
     (let extBase = parAmps * num_ser_amps_det (fp s);
          srcLine = prescan2 m
      in case py_for (py_range (parAmps * dstAmpY s m) (parAmps * dstAmpY s m + dstAmpY s m))
                (copy_line s m extBase) (buf, srcLine) of
           (r, (buf', srcLine')) \<Rightarrow> (r, buf'))"

definition copy_all :: "image \<Rightarrow> margins \<Rightarrow> ndarray \<Rightarrow> error option \<times> ndarray" where
  "copy_all s m buf = py_for (py_range 0 (num_par_amps_det (fp s))) (copy_group s m) buf"

text \<open>
  Lines 192 to 200: a fresh buffer unless the image was read from a file. Both branches on
  the data type allocate the same shape; they differ in the cell type only.
\<close>

definition alloc_buffer :: "(nat \<Rightarrow> real) \<Rightarrow> image \<Rightarrow> error + image" where
  "alloc_buffer mem s =
     (if from_file s \<noteq> 1 then
        (case numpy_empty mem (size_y s) (size_x s) of
           Inl e \<Rightarrow> Inl e
         | Inr b \<Rightarrow> Inr (s\<lparr>buffer := b\<rparr>))
      else Inr s)"

text \<open>
  Lines 205 to 244: the assembled size and the shape of the buffer. On an exception the
  assignments made before it stay, so the failing state is returned with the error.
\<close>

definition size_buffer :: "int \<Rightarrow> image \<Rightarrow> outcome" where
  "size_buffer trm s =
     (if trm = 1 then
        (let num_under = numamps_x (fp s) * numcols_overscan (fp s);
             num_over = numamps_x (fp s) * numcols_underscan (fp s);
             sx = size_x s - num_under - num_over;
             num_under2 = numamps_y (fp s) * numrows_overscan (fp s);
             num_over2 = numamps_y (fp s) * numrows_underscan (fp s);
             sy = size_y s - num_under2 - num_over2;
             s1 = s\<lparr>asmsize := (sx, sy)\<rparr>;
             imgSize = sx * sy
         in case numpy_resize (buffer s1) imgSize of
              Inl e \<Rightarrow> Raised e s1
            | Inr b \<Rightarrow>
               (let s2 = s1\<lparr>buffer := b\<rparr>
                in case reshape b (snd (asmsize s2)) (fst (asmsize s2)) of
                     Inl e \<Rightarrow> Raised e s2
                   | Inr b' \<Rightarrow> Returned (s2\<lparr>buffer := b'\<rparr>)))
      else
        (let s1 = s\<lparr>asmsize := (size_x s, size_y s)\<rparr>;
             imgSize = size_x s * size_y s
         in if length (concat (data s1)) \<noteq> array_size (buffer s1) then
              (case numpy_resize (buffer s1) imgSize of
                 Inl e \<Rightarrow> Raised e s1
               | Inr b \<Rightarrow>
                  (let s2 = s1\<lparr>buffer := b\<rparr>
                   in case reshape b (snd (asmsize s2)) (fst (asmsize s2)) of
                        Inl e \<Rightarrow> Raised e s2
                      | Inr b' \<Rightarrow> Returned (s2\<lparr>buffer := b'\<rparr>)))
            else Returned s1))"

text \<open>Lines 257 to 260: the three attributes set before the loops.\<close>

definition set_line_attrs :: "margins \<Rightarrow> image \<Rightarrow> image" where
  "set_line_attrs m s =
     s\<lparr>lineLen := Some (numcols_amp (fp s) - prescan1 m - overscan1 m),
       startLine := Some (prescan2 m),
       stopLine := Some (numrows_amp (fp s) - prescan2 m - overscan2 m)\<rparr>"

text \<open>Lines 325 to 335: the final reshape and the flags.\<close>

definition finish :: "int \<Rightarrow> image \<Rightarrow> outcome" where
  "finish trm s =
     (case reshape (buffer s) (snd (asmsize s)) (fst (asmsize s)) of
        Inl e \<Rightarrow> Raised e s
      | Inr b \<Rightarrow>
         (let s1 = s\<lparr>buffer := b, assembled := 1\<rparr>
          in if trm = 1 then Returned (s1\<lparr>trimmed := 1\<rparr>) else Returned s1))"

text \<open>
  \<open>Image.assemble(trim)\<close>. \<open>mem\<close> is the content of the memory that \<open>numpy.empty\<close> hands out
  uninitialised.
\<close>

definition assemble :: "(nat \<Rightarrow> real) \<Rightarrow> int \<Rightarrow> image \<Rightarrow> outcome" where
  "assemble mem trm s =
     (if is_valid s = 0 then Raised (AzcamError ''image is not valid'') s
      else if assembled s \<noteq> 0 then Returned s
      else
        (let s1 = s\<lparr>asmsize := (numcols_image (fp s), numrows_image (fp s))\<rparr>
         in case alloc_buffer mem s1 of
              Inl e \<Rightarrow> Raised e s1
            | Inr s2 \<Rightarrow>
               (case size_buffer trm s2 of
                  Raised e s3 \<Rightarrow> Raised e s3
                | Returned s3 \<Rightarrow>
                   (let m = margins_of trm s3;
                        s4 = set_line_attrs m s3
                    in case copy_all s4 m (buffer s4) of
                         (Some e, b) \<Rightarrow> Raised e (s4\<lparr>buffer := b\<rparr>)
                       | (None, b) \<Rightarrow> finish trm (s4\<lparr>buffer := b\<rparr>)))))"

section \<open>\<open>Image.set_scaling\<close>\<close>

text \<open>
  One pass of the loop of lines 365 to 367: \<open>self.scales[chan] = gains[chan]\<close>, then
  \<open>self.offsets[chan] = offsets[chan]\<close>; each right side is read before its target is
  written, and either may raise IndexError.
\<close>

definition set_chan :: "real list \<Rightarrow> real list \<Rightarrow> int \<Rightarrow> image \<Rightarrow> error option \<times> image" where
  "set_chan gs os chan s =
     (case py_index gs chan of
        Inl e \<Rightarrow> (Some e, s)
      | Inr g \<Rightarrow>
         (case norm_index (length (scales s)) chan of
            Inl e \<Rightarrow> (Some e, s)
          | Inr i \<Rightarrow>
             (let s1 = s\<lparr>scales := (scales s)[i := g]\<rparr>
              in (case py_index os chan of
                    Inl e \<Rightarrow> (Some e, s1)
                  | Inr v \<Rightarrow>
                     (case norm_index (length (offsets s1)) chan of
                        Inl e \<Rightarrow> (Some e, s1)
                      | Inr j \<Rightarrow> (None, s1\<lparr>offsets := (offsets s1)[j := v]\<rparr>))))))"

text \<open>
  \<open>Image.set_scaling(gains, offsets)\<close>; \<open>None\<close> is an omitted argument. The two arrays made
  by \<open>numpy.empty\<close> are filled cell by cell with 1.0 and 0.0 before anything reads them, so
  they are written here as the filled arrays; a negative amplifier count makes
  \<open>numpy.empty\<close> raise ValueError.
\<close>

definition set_scaling :: "real list option \<Rightarrow> real list option \<Rightarrow> image \<Rightarrow> outcome" where
  "set_scaling gains offs s =
     (let s1 = s\<lparr>num_extensions := Some (numamps_image (fp s))\<rparr>;
          n = numamps_image (fp s)
      in if n < 0 then Raised ValueError s1
         else
           (let s2 = s1\<lparr>scales := replicate (nat n) 1\<rparr>;
                s3 = s2\<lparr>offsets := replicate (nat n) 0\<rparr>;
                gs = (case gains of None \<Rightarrow> replicate (length (data s3)) 1 | Some g \<Rightarrow> g);
                os = (case offs of None \<Rightarrow> replicate (length (data s3)) 0 | Some v \<Rightarrow> v)
            in case py_for (py_range 0 (int (length (data s3)))) (set_chan gs os) s3 of
                 (Some e, s4) \<Rightarrow> Raised e s4
               | (None, s4) \<Rightarrow> Returned s4))"

section \<open>Creating an image and reading a file\<close>

text \<open>
  \<open>Image.__init__\<close> with no file name, on the attributes modelled; the focal plane is the
  one \<open>FocalPlane()\<close> makes, taken as a parameter. The empty Python lists are empty arrays.
\<close>

definition init_image :: "focalplane \<Rightarrow> image" where
  "init_image f =
     \<lparr>is_valid = 0, toggle = 0, size_x = 0, size_y = 0, buffer = Flat [], from_file = 0,
      scales = [], offsets = [], data = [], trim = 1, assembled = 0, trimmed = 0,
      asmsize = (0, 0), fp = f, lineLen = None, startLine = None, stopLine = None,
      num_extensions = None\<rparr>"

text \<open>
  What a successful \<open>_read_fits_file\<close> takes from the file: the focal-plane values, the image
  size, the default calibration arrays and the pixel data.
\<close>

record decoded =
  d_fp :: focalplane
  d_size_x :: int
  d_size_y :: int
  d_num_extensions :: int
  d_offsets :: "real list"
  d_scales :: "real list"
  d_data :: "real list list"

text \<open>
  The effect of \<open>_read_fits_file\<close> on the attributes modelled, for a file that decodes
  without error: lines 376 to 378 clear \<open>assembled\<close>, \<open>is_valid\<close> and \<open>toggle\<close>; the body
  stores what it decoded; lines 794 to 819 set \<open>is_valid\<close>, allocate the buffer with
  \<open>numpy.empty(shape=[size_y, size_x])\<close> and set \<open>from_file\<close>. No line of the method
  assigns \<open>trim\<close>, \<open>trimmed\<close> or \<open>asmsize\<close>.
\<close>

definition read_fits_file :: "(nat \<Rightarrow> real) \<Rightarrow> decoded \<Rightarrow> image \<Rightarrow> outcome" where
  "read_fits_file mem d s =
     (let s1 = s\<lparr>assembled := 0, is_valid := 0, toggle := 0\<rparr>;
          s2 = s1\<lparr>num_extensions := Some (d_num_extensions d), fp := d_fp d,
                 size_x := d_size_x d, size_y := d_size_y d,
                 offsets := d_offsets d, scales := d_scales d, data := d_data d\<rparr>;
          s3 = s2\<lparr>is_valid := 1\<rparr>
      in case numpy_empty mem (size_y s3) (size_x s3) of
           Inl e \<Rightarrow> Raised e s3
         | Inr b \<Rightarrow> Returned (s3\<lparr>buffer := b, from_file := 1\<rparr>))"

section \<open>Validity of an image\<close>

text \<open>
  The geometry invariant of the data model: non-negative grid counts and margins, margins
  that fit into the amplifier block, the serial and parallel amplifier counts equal to the
  grid counts, and the raw image size equal to grid count times amplifier size (as
  \<open>_read_fits_file\<close> sets it).
\<close>

definition valid_geometry :: "image \<Rightarrow> bool" where
  "valid_geometry s \<longleftrightarrow>
     0 \<le> numamps_x (fp s) \<and> 0 \<le> numamps_y (fp s) \<and>
     num_ser_amps_det (fp s) = numamps_x (fp s) \<and>
     num_par_amps_det (fp s) = numamps_y (fp s) \<and>
     0 \<le> numcols_underscan (fp s) \<and> 0 \<le> numcols_overscan (fp s) \<and>
     0 \<le> numrows_underscan (fp s) \<and> 0 \<le> numrows_overscan (fp s) \<and>
     numcols_underscan (fp s) + numcols_overscan (fp s) \<le> numcols_amp (fp s) \<and>
     numrows_underscan (fp s) + numrows_overscan (fp s) \<le> numrows_amp (fp s) \<and>
     size_x s = numamps_x (fp s) * numcols_amp (fp s) \<and>
     size_y s = numamps_y (fp s) * numrows_amp (fp s)"

text \<open>The flags agree when an assembled image is also a valid one.\<close>

definition flags_consistent :: "image \<Rightarrow> bool" where
  "flags_consistent s \<longleftrightarrow> (assembled s \<noteq> 0 \<longrightarrow> is_valid s \<noteq> 0)"

text \<open>
  A valid image: a valid geometry, amplifier numbers counted from 1, every flip code one
  of 0, 1, 2, 3, every amplifier's raw pixel sequence of length
  \<open>numcols_amp * numrows_amp\<close>, and, for an image read from a file (which keeps the buffer
  the reader allocated), a buffer of shape \<open>(size_y, size_x)\<close>.
\<close>

definition valid_image :: "image \<Rightarrow> bool" where
  "valid_image s \<longleftrightarrow>
     valid_geometry s \<and>
     list_all (\<lambda>x. 1 \<le> x) (jpg_ext (fp s)) \<and>
     list_all (\<lambda>f. f = 0 \<or> f = 1 \<or> f = 2 \<or> f = 3) (amp_cfg (fp s)) \<and>
     list_all (\<lambda>amp. int (length amp) = numcols_amp (fp s) * numrows_amp (fp s)) (data s) \<and>
     (from_file s = 1 \<longrightarrow> has_shape (buffer s) (nat (size_y s)) (nat (size_x s)))"

text \<open>
  The index arrays of a well-formed image: the amplifier order, the flip codes, the raw data
  and the calibration arrays all have one entry per amplifier of the grid, and the
  amplifier order holds amplifier numbers from 1 to the amplifier count.
\<close>

definition well_indexed :: "image \<Rightarrow> bool" where
  "well_indexed s \<longleftrightarrow>
     (let n = numamps_x (fp s) * numamps_y (fp s)
      in int (length (jpg_ext (fp s))) = n \<and> int (length (amp_cfg (fp s))) = n \<and>
         int (length (data s)) = n \<and> int (length (offsets s)) = n \<and>
         int (length (scales s)) = n \<and>
         list_all (\<lambda>x. 1 \<le> x \<and> x \<le> n) (jpg_ext (fp s)))"

text \<open>
  The mirrored row of flip code 3 stays inside the amplifier block: no trimming, or no more
  underscan rows than overscan rows, or no amplifier with flip code 3.
\<close>

definition mirror_rows_ok :: "int \<Rightarrow> image \<Rightarrow> bool" where
  "mirror_rows_ok trm s \<longleftrightarrow>
     trm \<noteq> 1 \<or> numrows_underscan (fp s) \<le> numrows_overscan (fp s) \<or>
     list_all (\<lambda>f. f \<noteq> 3) (amp_cfg (fp s))"

text \<open>The source rows that the line \<open>srcLine\<close> needs lie inside the amplifier block.\<close>

definition line_ok :: "image \<Rightarrow> margins \<Rightarrow> int \<Rightarrow> bool" where
  "line_ok s m srcLine \<longleftrightarrow>
     0 \<le> srcLine \<and> srcLine < numrows_amp (fp s) \<and>
     0 \<le> numrows_amp (fp s) - srcLine - overscan2 m - 1 \<and>
     numrows_amp (fp s) - srcLine - overscan2 m - 1 < numrows_amp (fp s) \<and>
     numrows_amp (fp s) - srcLine - prescan2 m - 1 < numrows_amp (fp s) \<and>
     (0 \<le> numrows_amp (fp s) - srcLine - prescan2 m - 1 \<or> list_all (\<lambda>f. f \<noteq> 3) (amp_cfg (fp s)))"

text \<open>Applying a change of state to the state a call ends in.\<close>

fun map_outcome :: "(image \<Rightarrow> image) \<Rightarrow> outcome \<Rightarrow> outcome" where
  "map_outcome f (Returned s) = Returned (f s)"
| "map_outcome f (Raised e s) = Raised e (f s)"

text \<open>
  Row \<open>l\<close> of a two-dimensional buffer, and its \<open>j\<close>-th segment of width \<open>d\<close>: the columns
  \<open>j * d\<close> up to \<open>j * d + d - 1\<close>.
\<close>

definition buffer_row :: "ndarray \<Rightarrow> nat \<Rightarrow> real list" where
  "buffer_row b l = (case b of Flat xs \<Rightarrow> [] | Grid rows \<Rightarrow> rows ! l)"

definition dest_segment :: "ndarray \<Rightarrow> nat \<Rightarrow> nat \<Rightarrow> nat \<Rightarrow> real list" where
  "dest_segment b l j d = take d (drop (j * d) (buffer_row b l))"

text \<open>
  The source segment \<open>self.data[indx][posX : posX + dstAmpX]\<close>, with \<open>[::-1]\<close> for the flip
  codes 1 and 3, of the amplifier whose flat pixel sequence is \<open>amp\<close>.
\<close>

definition source_segment :: "image \<Rightarrow> margins \<Rightarrow> int \<Rightarrow> real list \<Rightarrow> int \<Rightarrow> real list" where
  "source_segment s m flip amp srcLine =
     (let seg = py_slice amp (posX s m flip srcLine) (posX s m flip srcLine + dstAmpX s m)
      in if reversed flip then rev seg else seg)"

text \<open>
  Row \<open>r\<close> of an amplifier's raw block (the block is stored row by row, \<open>numcols_amp\<close> pixels
  to a row), and the part of a raw row that is left when the column margins are cut off:
  \<open>dstAmpX\<close> pixels from column \<open>prescan1\<close> on.
\<close>

definition amp_row :: "image \<Rightarrow> real list \<Rightarrow> int \<Rightarrow> real list" where
  "amp_row s amp r = take (nat (numcols_amp (fp s))) (drop (nat (r * numcols_amp (fp s))) amp)"

definition trimmed_cols :: "image \<Rightarrow> margins \<Rightarrow> real list \<Rightarrow> real list" where
  "trimmed_cols s m row = take (nat (dstAmpX s m)) (drop (nat (prescan1 m)) row)"

text \<open>Whether a call returned.\<close>

fun returned :: "outcome \<Rightarrow> bool" where
  "returned (Returned s) = True"
| "returned (Raised e s) = False"

section \<open>An example image\<close>

text \<open>
  A 2 by 2 grid of amplifiers with the flip codes 0, 1, 2, 3; each amplifier block is 3
  columns by 3 rows, with one underscan column and one overscan row.
\<close>

definition example_fp :: focalplane where
  "example_fp =
     \<lparr>numcols_image = 6, numrows_image = 6, numcols_amp = 3, numrows_amp = 3,
      numcols_underscan = 1, numcols_overscan = 0, numrows_underscan = 0, numrows_overscan = 1,
      numamps_x = 2, numamps_y = 2, numamps_image = 4, num_ser_amps_det = 2,
      num_par_amps_det = 2, jpg_ext = [1, 2, 3, 4], amp_cfg = [0, 1, 2, 3]\<rparr>"

definition example_image :: image where
  "example_image =
     \<lparr>is_valid = 1, toggle = 0, size_x = 6, size_y = 6,
      buffer = Grid (replicate 6 (replicate 6 0)), from_file = 1,
      scales = [1, 2, 1, 2], offsets = [0, 1, 2, 3],
      data = [[10, 11, 12, 13, 14, 15, 16, 17, 18],
              [20, 21, 22, 23, 24, 25, 26, 27, 28],
              [30, 31, 32, 33, 34, 35, 36, 37, 38],
              [40, 41, 42, 43, 44, 45, 46, 47, 48]],
      trim = 1, assembled = 0, trimmed = 0, asmsize = (0, 0), fp = example_fp,
      lineLen = None, startLine = None, stopLine = None, num_extensions = Some 4\<rparr>"

text \<open>The example image after \<open>assemble(1)\<close> and after \<open>assemble(0)\<close>.\<close>

definition example_trimmed :: image where
  "example_trimmed =
     example_image
       \<lparr>buffer := Grid [[11, 12, 42, 40], [14, 15, 48, 46], [32, 33, 90, 88], [29, 30, 84, 82]],
        assembled := 1, trimmed := 1, asmsize := (4, 4),
        lineLen := Some 2, startLine := Some 0, stopLine := Some 2\<rparr>"

definition example_untrimmed :: image where
  "example_untrimmed =
     example_image
       \<lparr>buffer := Grid [[10, 11, 12, 42, 40, 38], [13, 14, 15, 48, 46, 44],
                        [16, 17, 18, 54, 52, 50], [34, 35, 36, 90, 88, 86],
                        [31, 32, 33, 84, 82, 80], [28, 29, 30, 78, 76, 74]],
        assembled := 1, asmsize := (6, 6),
        lineLen := Some 3, startLine := Some 0, stopLine := Some 3\<rparr>"

text \<open>
  The example image with the flip code of its second amplifier set to 4, and what
  \<open>assemble(1)\<close> makes of it: the second amplifier contributes nothing.
\<close>

definition flip4_image :: image where
  "flip4_image = example_image\<lparr>fp := example_fp\<lparr>amp_cfg := [0, 4, 2, 3]\<rparr>\<rparr>"

definition flip4_assembled :: image where
  "flip4_assembled =
     flip4_image
       \<lparr>buffer := Grid [[11, 12, 0, 0], [14, 15, 0, 0], [32, 33, 90, 88], [29, 30, 84, 82]],
        assembled := 1, trimmed := 1, asmsize := (4, 4),
        lineLen := Some 2, startLine := Some 0, stopLine := Some 2\<rparr>"

text \<open>
  A file holding the same exposure, and the trimmed example image after that file has been
  read into it.
\<close>

definition example_decoded :: decoded where
  "example_decoded =
     \<lparr>d_fp = example_fp, d_size_x = 6, d_size_y = 6, d_num_extensions = 4,
      d_offsets = [0, 0, 0, 0], d_scales = [1, 1, 1, 1], d_data = data example_image\<rparr>"

definition example_reread :: image where
  "example_reread =
     example_trimmed
       \<lparr>assembled := 0, buffer := Grid (replicate 6 (replicate 6 0)),
        offsets := [0, 0, 0, 0], scales := [1, 1, 1, 1]\<rparr>"

section \<open>What the loops establish\<close>

text \<open>
  The first \<open>k\<close> segments of a destination row hold what the amplifiers at positions
  \<open>extBase\<close>, \<open>extBase + 1\<close>, ... contribute for the source line \<open>srcLine\<close>.
\<close>

definition row_done :: "image \<Rightarrow> margins \<Rightarrow> int \<Rightarrow> int \<Rightarrow> nat \<Rightarrow> real list \<Rightarrow> bool" where
  "row_done s m srcLine extBase k row \<longleftrightarrow>
     (\<forall>j<k. \<exists>v. segment_value s m srcLine (extBase + int j) = Inr v \<and>
        (length v = nat (dstAmpX s m) \<or> length v = 1) \<and>
        take (nat (dstAmpX s m)) (drop (j * nat (dstAmpX s m)) row) = broadcast (nat (dstAmpX s m)) v)"

section \<open>Loops and frames\<close>

lemma py_for_preserves:
  assumes "py_for xs body s = (r, s')" and "P s"
    and "\<And>i t r' t'. P t \<Longrightarrow> body i t = (r', t') \<Longrightarrow> P t'"
  shows "P s'"
  using assms(1,2)
proof (induction xs arbitrary: s)
  case Nil
  then show ?case by simp
next
  case (Cons i xs)
  obtain r1 s1 where b: "body i s = (r1, s1)" by (cases "body i s")
  have p1: "P s1" using assms(3) Cons.prems(2) b by blast
  show ?case
  proof (cases r1)
    case None
    with Cons.prems(1) b have "py_for xs body s1 = (r, s')" by simp
    then show ?thesis using Cons.IH p1 by blast
  next
    case (Some e)
    with Cons.prems(1) b have "s' = s1" by simp
    then show ?thesis using p1 by simp
  qed
qed

lemma py_for_append:
  "py_for (xs @ ys) body s =
     (case py_for xs body s of (None, s') \<Rightarrow> py_for ys body s' | (Some e, s') \<Rightarrow> (Some e, s'))"
proof (induction xs arbitrary: s)
  case Nil
  then show ?case by simp
next
  case (Cons i xs)
  obtain r1 s1 where b: "body i s = (r1, s1)" by (cases "body i s")
  show ?case using b Cons.IH by (cases r1) simp_all
qed

lemma set_chan_frame:
  assumes "set_chan gs os chan s = (r, s')"
  shows "is_valid s' = is_valid s \<and> assembled s' = assembled s \<and> buffer s' = buffer s \<and>
         asmsize s' = asmsize s \<and> trimmed s' = trimmed s \<and> data s' = data s \<and> fp s' = fp s"
  using assms
  by (auto simp: set_chan_def Let_def split: sum.splits)

lemma set_scaling_frame:
  "is_valid (final_state (set_scaling gains offs s)) = is_valid s \<and>
   assembled (final_state (set_scaling gains offs s)) = assembled s \<and>
   buffer (final_state (set_scaling gains offs s)) = buffer s \<and>
   asmsize (final_state (set_scaling gains offs s)) = asmsize s \<and>
   trimmed (final_state (set_scaling gains offs s)) = trimmed s"
proof (cases "numamps_image (fp s) < 0")
  case True
  then show ?thesis by (simp add: set_scaling_def Let_def)
next
  case False
  define s3 where "s3 = s\<lparr>num_extensions := Some (numamps_image (fp s)),
      scales := replicate (nat (numamps_image (fp s))) 1,
      offsets := replicate (nat (numamps_image (fp s))) 0\<rparr>"
  define gs where "gs = (case gains of None \<Rightarrow> replicate (length (data s3)) 1 | Some g \<Rightarrow> g)"
  define os where "os = (case offs of None \<Rightarrow> replicate (length (data s3)) 0 | Some v \<Rightarrow> v)"
  have d3: "data s3 = data s" by (simp add: s3_def)
  obtain r s4 where loop: "py_for (py_range 0 (int (length (data s3)))) (set_chan gs os) s3 = (r, s4)"
    by (cases "py_for (py_range 0 (int (length (data s3)))) (set_chan gs os) s3")
  let ?P = "\<lambda>t. is_valid t = is_valid s \<and> assembled t = assembled s \<and> buffer t = buffer s \<and>
             asmsize t = asmsize s \<and> trimmed t = trimmed s"
  have "?P s3" by (simp add: s3_def)
  then have "?P s4"
    using py_for_preserves [OF loop, of ?P] set_chan_frame by metis
  moreover have "final_state (set_scaling gains offs s) = s4"
    using False loop unfolding set_scaling_def Let_def gs_def os_def s3_def
    by (cases r) simp_all
  ultimately show ?thesis by simp
qed

lemma alloc_buffer_frame:
  assumes "alloc_buffer mem s = Inr s'"
  shows "s' = s\<lparr>buffer := buffer s'\<rparr>"
  using assms by (auto simp: alloc_buffer_def split: if_splits sum.splits)

lemma size_buffer_frame:
  assumes "size_buffer trm s = Returned s'"
  shows "s' = s\<lparr>asmsize := asmsize s', buffer := buffer s'\<rparr>"
  using assms
  by (auto simp: size_buffer_def Let_def split: if_splits sum.splits)

lemma finish_frame:
  assumes "finish trm s = Returned s'"
  shows "s' = s\<lparr>buffer := buffer s', assembled := 1, trimmed := (if trm = 1 then 1 else trimmed s)\<rparr>"
  using assms
  by (auto simp: finish_def Let_def split: if_splits sum.splits)

text \<open>
  What a run of \<open>assemble\<close> that gets past the two guards and returns has done to the
  attributes: the intermediate states are named so that later proofs can pick them up.
\<close>

lemma assemble_run:
  assumes ret: "assemble mem trm s = Returned s'" and fresh: "assembled s = 0"
  obtains s2 s3 b where
    "is_valid s \<noteq> 0"
    "alloc_buffer mem (s\<lparr>asmsize := (numcols_image (fp s), numrows_image (fp s))\<rparr>) = Inr s2"
    "size_buffer trm s2 = Returned s3"
    "copy_all (set_line_attrs (margins_of trm s3) s3) (margins_of trm s3) (buffer s3) = (None, b)"
    "finish trm (set_line_attrs (margins_of trm s3) s3\<lparr>buffer := b\<rparr>) = Returned s'"
proof -
  have v: "is_valid s \<noteq> 0" using ret by (auto simp: assemble_def split: if_splits)
  let ?s1 = "s\<lparr>asmsize := (numcols_image (fp s), numrows_image (fp s))\<rparr>"
  from ret v fresh obtain s2 where a: "alloc_buffer mem ?s1 = Inr s2"
    by (cases "alloc_buffer mem ?s1") (auto simp: assemble_def Let_def)
  from ret v fresh a obtain s3 where sz: "size_buffer trm s2 = Returned s3"
    by (cases "size_buffer trm s2") (auto simp: assemble_def Let_def)
  let ?m = "margins_of trm s3"
  let ?s4 = "set_line_attrs ?m s3"
  have b4: "buffer ?s4 = buffer s3" by (simp add: set_line_attrs_def)
  obtain r b where c: "copy_all ?s4 ?m (buffer s3) = (r, b)"
    by (cases "copy_all ?s4 ?m (buffer s3)")
  from ret v fresh a sz c b4 have r: "r = None"
    by (cases r) (auto simp: assemble_def Let_def)
  from ret v fresh a sz c b4 r have f: "finish trm (?s4\<lparr>buffer := b\<rparr>) = Returned s'"
    by (auto simp: assemble_def Let_def)
  show thesis using that [OF v a sz c [unfolded r] f] .
qed

section \<open>Slices, indices and one copied segment\<close>

lemma py_for_inv:
  assumes "py_for xs body s = (None, s')"
    and "I 0 s"
    and "\<And>k t t'. k < length xs \<Longrightarrow> I k t \<Longrightarrow> body (xs ! k) t = (None, t') \<Longrightarrow> I (Suc k) t'"
  shows "I (length xs) s'"
  using assms
proof (induction xs arbitrary: s I)
  case Nil
  then show ?case by simp
next
  case (Cons x xs)
  obtain r1 s1 where b: "body x s = (r1, s1)" by (cases "body x s")
  with Cons.prems(1) have r1: "r1 = None" by (cases r1) auto
  with Cons.prems(1) b have rest: "py_for xs body s1 = (None, s')" by simp
  have i1: "I (Suc 0) s1" using Cons.prems(3) [of 0 s s1] Cons.prems(2) b r1 by simp
  have "(\<lambda>k. I (Suc k)) (length xs) s'"
  proof (rule Cons.IH [OF rest, of "\<lambda>k. I (Suc k)"])
    show "I (Suc 0) s1" by (rule i1)
  next
    fix k t t'
    assume "k < length xs" "I (Suc k) t" "body (xs ! k) t = (None, t')"
    then show "I (Suc (Suc k)) t'" using Cons.prems(3) [of "Suc k" t t'] by simp
  qed
  then show ?case by simp
qed

lemma length_py_range: "length (py_range a b) = nat (b - a)"
  by (simp add: py_range_def)

lemma nth_py_range: "k < nat (b - a) \<Longrightarrow> py_range a b ! k = a + int k"
  by (simp add: py_range_def)

lemma slice_bound_inrange: "0 \<le> i \<Longrightarrow> i \<le> int n \<Longrightarrow> slice_bound n i = nat i"
  by (auto simp: slice_bound_def)

lemma slice_bound_le: "slice_bound n i \<le> n"
  by (auto simp: slice_bound_def)

lemma norm_index_inrange: "norm_index n i = Inr l \<Longrightarrow> 0 \<le> i \<Longrightarrow> l = nat i \<and> i < int n"
  by (auto simp: norm_index_def Let_def split: if_splits)

lemma norm_index_lt: "norm_index n i = Inr l \<Longrightarrow> l < n"
  by (auto simp: norm_index_def Let_def split: if_splits)

lemma py_index_mem: "py_index xs i = Inr x \<Longrightarrow> x \<in> set xs"
  by (auto simp: py_index_def split: sum.splits dest: norm_index_lt)

lemma length_broadcast: "length v = n \<or> length v = 1 \<Longrightarrow> length (broadcast n v) = n"
  by (auto simp: broadcast_def)

lemma setitem_slice_length:
  assumes "setitem_slice row a b v = Inr row'"
  shows "length row' = length row"
proof -
  let ?lo = "slice_bound (length row) a" and ?hi = "slice_bound (length row) b"
  have lo: "?lo \<le> length row" and hi: "?hi \<le> length row" by (rule slice_bound_le)+
  from assms have ok: "length v = ?hi - ?lo \<or> length v = 1"
    and r: "row' = take ?lo row @ broadcast (?hi - ?lo) v @ drop (?lo + (?hi - ?lo)) row"
    by (auto simp: setitem_slice_def Let_def split: if_splits)
  show ?thesis using lo hi length_broadcast [OF ok] by (simp add: r)
qed

lemma setitem_slice_exact:
  assumes w: "setitem_slice row a (a + d) v = Inr row'"
    and a: "0 \<le> a" and d: "0 \<le> d" and fit: "a + d \<le> int (length row)"
  shows "take (nat a) row' = take (nat a) row"
    and "drop (nat (a + d)) row' = drop (nat (a + d)) row"
    and "take (nat d) (drop (nat a) row') = broadcast (nat d) v"
    and "length v = nat d \<or> length v = 1"
proof -
  have lo: "slice_bound (length row) a = nat a" using a d fit by (intro slice_bound_inrange) auto
  have hi: "slice_bound (length row) (a + d) = nat (a + d)" using a d fit by (intro slice_bound_inrange) auto
  have n: "nat (a + d) - nat a = nat d" using a d by simp
  from w have ok: "length v = nat d \<or> length v = 1"
    and r: "row' = take (nat a) row @ broadcast (nat d) v @ drop (nat a + nat d) row"
    by (auto simp: setitem_slice_def Let_def lo hi n split: if_splits)
  have lb: "length (broadcast (nat d) v) = nat d" using ok by (rule length_broadcast)
  have la: "nat a \<le> length row" using a d fit by simp
  show "length v = nat d \<or> length v = 1" by (rule ok)
  show "take (nat a) row' = take (nat a) row" using la by (simp add: r)
  show "take (nat d) (drop (nat a) row') = broadcast (nat d) v" using la lb by (simp add: r)
  have "nat (a + d) = nat a + nat d" using a d by (simp add: nat_add_distrib)
  then show "drop (nat (a + d)) row' = drop (nat (a + d)) row" using la lb by (simp add: r)
qed

lemma take_drop_take: "x + n \<le> a \<Longrightarrow> take n (drop x (take a xs)) = take n (drop x xs)"
  by (simp add: drop_take min_def)

lemma copy_ext_Grid:
  assumes c: "copy_ext s m line srcLine c (Grid rows, ls) = (None, (b', ls'))"
    and fl: "\<forall>f \<in> set (amp_cfg (fp s)). f = 0 \<or> f = 1 \<or> f = 2 \<or> f = 3"
  shows "\<exists>v l row'. segment_value s m srcLine c = Inr v \<and>
            norm_index (length rows) line = Inr l \<and>
            setitem_slice (rows ! l) ls (ls + dstAmpX s m) v = Inr row' \<and>
            b' = Grid (rows[l := row']) \<and> ls' = ls + dstAmpX s m"
proof -
  from c obtain x where x: "py_index (jpg_ext (fp s)) c = Inr x"
    by (cases "py_index (jpg_ext (fp s)) c") (auto simp: copy_ext_def)
  from c x obtain flip where f: "py_index (amp_cfg (fp s)) (x - 1) = Inr flip"
    by (cases "py_index (amp_cfg (fp s)) (x - 1)") (auto simp: copy_ext_def)
  have fv: "flip = 0 \<or> flip = 1 \<or> flip = 2 \<or> flip = 3"
    using fl py_index_mem [OF f] by blast
  let ?px = "posX s m flip srcLine"
  from c x f fv obtain w: "write_segment s (dstAmpX s m) (x - 1) ?px (reversed flip) line ls (Grid rows) = Inr b'"
    and ls': "ls' = ls + dstAmpX s m"
    by (cases "write_segment s (dstAmpX s m) (x - 1) ?px (reversed flip) line ls (Grid rows)")
       (auto simp: copy_ext_def dstAmpX_def)
  from w obtain amp where a: "py_index (data s) (x - 1) = Inr amp"
    by (cases "py_index (data s) (x - 1)") (auto simp: write_segment_def)
  from w a obtain off where off: "py_index (offsets s) (x - 1) = Inr off"
    by (cases "py_index (offsets s) (x - 1)") (auto simp: write_segment_def Let_def)
  from w a off obtain sc where sc: "py_index (scales s) (x - 1) = Inr sc"
    by (cases "py_index (scales s) (x - 1)") (auto simp: write_segment_def Let_def)
  from w a off sc obtain l where l: "norm_index (length rows) line = Inr l"
    by (cases "norm_index (length rows) line") (auto simp: write_segment_def Let_def)
  let ?seg = "py_slice amp ?px (?px + dstAmpX s m)"
  let ?v = "calibrate off sc (if reversed flip then rev ?seg else ?seg)"
  from w a off sc l obtain row' where
    r: "setitem_slice (rows ! l) ls (ls + dstAmpX s m) ?v = Inr row'" and b: "b' = Grid (rows[l := row'])"
    by (cases "setitem_slice (rows ! l) ls (ls + dstAmpX s m) ?v") (auto simp: write_segment_def Let_def)
  have "segment_value s m srcLine c = Inr ?v"
    using x f a off sc by (simp add: segment_value_def Let_def)
  then show ?thesis using l r b ls' by blast
qed

section \<open>The three loops\<close>

lemma copy_line_Grid:
  assumes cl: "copy_line s m extBase line (Grid rows, srcLine) = (None, (b', sl'))"
    and fl: "\<forall>f \<in> set (amp_cfg (fp s)). f = 0 \<or> f = 1 \<or> f = 2 \<or> f = 3"
    and d0: "0 \<le> dstAmpX s m"
    and ln: "0 \<le> line"
    and fit: "num_ser_amps_det (fp s) * dstAmpX s m \<le> int (length (rows ! nat line))"
  shows "\<exists>rows'. b' = Grid rows' \<and> sl' = srcLine + 1 \<and> length rows' = length rows \<and>
           (\<forall>l'. l' \<noteq> nat line \<longrightarrow> rows' ! l' = rows ! l') \<and>
           length (rows' ! nat line) = length (rows ! nat line) \<and>
           row_done s m srcLine extBase (nat (num_ser_amps_det (fp s))) (rows' ! nat line)"
proof -
  define d where "d = dstAmpX s m"
  define ns where "ns = num_ser_amps_det (fp s)"
  define xs where "xs = py_range extBase (extBase + ns)"
  define I where "I = (\<lambda>k (st :: ndarray \<times> int).
     snd st = int k * d \<and>
     (\<exists>rows'. fst st = Grid rows' \<and> length rows' = length rows \<and>
        (\<forall>l'. l' \<noteq> nat line \<longrightarrow> rows' ! l' = rows ! l') \<and>
        length (rows' ! nat line) = length (rows ! nat line) \<and>
        row_done s m srcLine extBase k (rows' ! nat line)))"
  have len: "length xs = nat ns" by (simp add: xs_def length_py_range)
  obtain r bb ll where loop: "py_for xs (copy_ext s m line srcLine) (Grid rows, 0) = (r, (bb, ll))"
    by (cases "py_for xs (copy_ext s m line srcLine) (Grid rows, 0)") auto
  from cl loop have r: "r = None" and bb: "bb = b'" and sl: "sl' = srcLine + 1"
    by (cases r; simp add: copy_line_def xs_def ns_def)+
  have i0: "I 0 (Grid rows, 0)" by (simp add: I_def row_done_def)
  have step: "I (Suc k) t'"
    if k: "k < length xs" and ik: "I k t" and b: "copy_ext s m line srcLine (xs ! k) t = (None, t')"
    for k t t'
  proof -
    obtain rows1 where t: "t = (Grid rows1, int k * d)" and l1: "length rows1 = length rows"
      and oth: "\<forall>l'. l' \<noteq> nat line \<longrightarrow> rows1 ! l' = rows ! l'"
      and lr: "length (rows1 ! nat line) = length (rows ! nat line)"
      and dn: "row_done s m srcLine extBase k (rows1 ! nat line)"
      using ik by (cases t) (auto simp: I_def)
    have xk: "xs ! k = extBase + int k" using k len by (simp add: xs_def nth_py_range)
    obtain b1 ls1 where t': "t' = (b1, ls1)" by (cases t')
    from copy_ext_Grid [OF b [unfolded t t' xk] fl]
    obtain v l row' where sv: "segment_value s m srcLine (extBase + int k) = Inr v"
      and l: "norm_index (length rows1) line = Inr l"
      and w: "setitem_slice (rows1 ! l) (int k * d) (int k * d + d) v = Inr row'"
      and b1: "b1 = Grid (rows1[l := row'])" and ls1: "ls1 = int k * d + d"
      by (auto simp: d_def)
    have ll: "l = nat line" and lt: "nat line < length rows1"
      using norm_index_inrange [OF l ln] norm_index_lt [OF l] by auto
    have kd: "0 \<le> int k * d" using d0 by (simp add: d_def)
    have "int (Suc k) \<le> ns" using k len by simp
    then have "int (Suc k) * d \<le> ns * d" using d0 by (intro mult_right_mono) (simp_all add: d_def)
    then have fit1: "int k * d + d \<le> int (length (rows1 ! l))"
      using fit lr ll by (simp add: ns_def d_def algebra_simps)
    have nk: "nat (int k * d) = k * nat d" by (simp add: nat_mult_distrib)
    have tk: "take (k * nat d) row' = take (k * nat d) (rows1 ! nat line)"
      and nw: "take (nat d) (drop (k * nat d) row') = broadcast (nat d) v"
      and lv: "length v = nat d \<or> length v = 1"
      using setitem_slice_exact(1,3,4) [OF w kd _ fit1] d0 nk by (simp_all add: ll d_def)
    have lrow: "length row' = length (rows1 ! nat line)"
      using setitem_slice_length [OF w] by (simp add: ll)
    have old: "take (nat d) (drop (j * nat d) row') = take (nat d) (drop (j * nat d) (rows1 ! nat line))"
      if "j < k" for j
    proof -
      have "Suc j \<le> k" using that by simp
      then have "Suc j * nat d \<le> k * nat d" by (rule mult_le_mono1)
      then have le: "j * nat d + nat d \<le> k * nat d" by simp
      have "take (nat d) (drop (j * nat d) row') = take (nat d) (drop (j * nat d) (take (k * nat d) row'))"
        by (rule take_drop_take [OF le, symmetric])
      also have "\<dots> = take (nat d) (drop (j * nat d) (take (k * nat d) (rows1 ! nat line)))"
        by (simp only: tk)
      also have "\<dots> = take (nat d) (drop (j * nat d) (rows1 ! nat line))"
        by (rule take_drop_take [OF le])
      finally show ?thesis .
    qed
    have "row_done s m srcLine extBase (Suc k) row'"
      unfolding row_done_def
    proof (intro allI impI)
      fix j assume "j < Suc k"
      then consider "j < k" | "j = k" by linarith
      then show "\<exists>v. segment_value s m srcLine (extBase + int j) = Inr v \<and>
          (length v = nat (dstAmpX s m) \<or> length v = 1) \<and>
          take (nat (dstAmpX s m)) (drop (j * nat (dstAmpX s m)) row') = broadcast (nat (dstAmpX s m)) v"
      proof cases
        case 1
        then show ?thesis using dn old [OF 1] by (auto simp: row_done_def d_def)
      next
        case 2
        then show ?thesis using sv nw lv by (auto simp: d_def)
      qed
    qed
    then show ?thesis
      using l1 oth lr lrow lt by (simp add: I_def t' b1 ls1 ll algebra_simps)
  qed
  have "I (length xs) (bb, ll)"
    using py_for_inv [OF loop [unfolded r], of I] i0 step by blast
  then show ?thesis using bb sl by (auto simp: I_def len ns_def)
qed

lemma copy_group_Grid:
  assumes cg: "copy_group s m p (Grid rows) = (None, b')"
    and fl: "\<forall>f \<in> set (amp_cfg (fp s)). f = 0 \<or> f = 1 \<or> f = 2 \<or> f = 3"
    and d0: "0 \<le> dstAmpX s m" and y0: "0 \<le> dstAmpY s m" and p0: "0 \<le> p"
    and rs: "(p + 1) * dstAmpY s m \<le> int (length rows)"
    and fit: "\<forall>l<length rows. num_ser_amps_det (fp s) * dstAmpX s m \<le> int (length (rows ! l))"
  shows "\<exists>rows'. b' = Grid rows' \<and> length rows' = length rows \<and>
           (\<forall>l. length (rows' ! l) = length (rows ! l)) \<and>
           (\<forall>l'. l' < nat p * nat (dstAmpY s m) \<or> nat p * nat (dstAmpY s m) + nat (dstAmpY s m) \<le> l'
                  \<longrightarrow> rows' ! l' = rows ! l') \<and>
           (\<forall>k<nat (dstAmpY s m).
              row_done s m (prescan2 m + int k) (p * num_ser_amps_det (fp s))
                (nat (num_ser_amps_det (fp s))) (rows' ! (nat p * nat (dstAmpY s m) + k)))"
proof -
  define dy where "dy = dstAmpY s m"
  define ns where "ns = num_ser_amps_det (fp s)"
  define base where "base = nat p * nat dy"
  define xs where "xs = py_range (p * dy) (p * dy + dy)"
  define I where "I = (\<lambda>k (st :: ndarray \<times> int).
     snd st = prescan2 m + int k \<and>
     (\<exists>rows'. fst st = Grid rows' \<and> length rows' = length rows \<and>
        (\<forall>l. length (rows' ! l) = length (rows ! l)) \<and>
        (\<forall>l'. l' < base \<or> base + k \<le> l' \<longrightarrow> rows' ! l' = rows ! l') \<and>
        (\<forall>k'<k. row_done s m (prescan2 m + int k') (p * ns) (nat ns) (rows' ! (base + k')))))"
  have len: "length xs = nat dy" by (simp add: xs_def length_py_range)
  have ib: "int base = p * dy" using p0 y0 by (simp add: base_def dy_def)
  obtain r bb ll where loop:
    "py_for xs (copy_line s m (p * ns) ) (Grid rows, prescan2 m) = (r, (bb, ll))"
    by (cases "py_for xs (copy_line s m (p * ns)) (Grid rows, prescan2 m)") auto
  from cg loop have r: "r = None" and bb: "bb = b'"
    by (simp_all add: copy_group_def Let_def xs_def ns_def dy_def)
  have i0: "I 0 (Grid rows, prescan2 m)" by (simp add: I_def)
  have step: "I (Suc k) t'"
    if k: "k < length xs" and ik: "I k t" and b: "copy_line s m (p * ns) (xs ! k) t = (None, t')"
    for k t t'
  proof -
    obtain rows1 where t: "t = (Grid rows1, prescan2 m + int k)" and l1: "length rows1 = length rows"
      and lens: "\<forall>l. length (rows1 ! l) = length (rows ! l)"
      and oth: "\<forall>l'. l' < base \<or> base + k \<le> l' \<longrightarrow> rows1 ! l' = rows ! l'"
      and dn: "\<forall>k'<k. row_done s m (prescan2 m + int k') (p * ns) (nat ns) (rows1 ! (base + k'))"
      using ik by (cases t) (auto simp: I_def)
    have xk: "xs ! k = p * dy + int k" using k len by (simp add: xs_def nth_py_range)
    have line0: "0 \<le> p * dy + int k" using p0 y0 by (simp add: dy_def)
    have nl: "nat (p * dy + int k) = base + k" using ib by (simp add: nat_add_distrib)
    have "int (base + k) < p * dy + dy" using k len ib by simp
    then have inr: "base + k < length rows" using rs by (simp add: dy_def algebra_simps)
    have fit1: "num_ser_amps_det (fp s) * dstAmpX s m \<le> int (length (rows1 ! nat (p * dy + int k)))"
      using fit inr lens by (simp add: nl)
    obtain b1 sl1 where t': "t' = (b1, sl1)" by (cases t')
    from copy_line_Grid [OF b [unfolded t t' xk] fl d0 line0 fit1]
    obtain rows2 where b1: "b1 = Grid rows2" and sl1: "sl1 = prescan2 m + int k + 1"
      and l2: "length rows2 = length rows1"
      and oth2: "\<forall>l'. l' \<noteq> base + k \<longrightarrow> rows2 ! l' = rows1 ! l'"
      and lr2: "length (rows2 ! (base + k)) = length (rows1 ! (base + k))"
      and dn2: "row_done s m (prescan2 m + int k) (p * ns) (nat ns) (rows2 ! (base + k))"
      by (auto simp: nl ns_def)
    have lens2: "\<forall>l. length (rows2 ! l) = length (rows ! l)"
      using lens oth2 lr2 by (metis)
    have oth3: "\<forall>l'. l' < base \<or> base + Suc k \<le> l' \<longrightarrow> rows2 ! l' = rows ! l'"
      using oth oth2 by auto
    have dn3: "\<forall>k'<Suc k. row_done s m (prescan2 m + int k') (p * ns) (nat ns) (rows2 ! (base + k'))"
    proof (intro allI impI)
      fix k' assume "k' < Suc k"
      then consider "k' < k" | "k' = k" by linarith
      then show "row_done s m (prescan2 m + int k') (p * ns) (nat ns) (rows2 ! (base + k'))"
      proof cases
        case 1
        then have "rows2 ! (base + k') = rows1 ! (base + k')" using oth2 by simp
        then show ?thesis using dn 1 by simp
      next
        case 2
        then show ?thesis using dn2 by simp
      qed
    qed
    show ?thesis
      unfolding I_def t' b1 sl1 using l1 l2 lens2 oth3 dn3 by simp
  qed
  have "I (length xs) (bb, ll)"
    using py_for_inv [OF loop [unfolded r], of I] i0 step by blast
  then show ?thesis using bb by (auto simp: I_def len ns_def dy_def base_def)
qed

lemma copy_all_Grid:
  assumes ca: "copy_all s m (Grid rows) = (None, b')"
    and fl: "\<forall>f \<in> set (amp_cfg (fp s)). f = 0 \<or> f = 1 \<or> f = 2 \<or> f = 3"
    and d0: "0 \<le> dstAmpX s m" and y0: "0 \<le> dstAmpY s m"
    and rs: "num_par_amps_det (fp s) * dstAmpY s m \<le> int (length rows)"
    and fit: "\<forall>l<length rows. num_ser_amps_det (fp s) * dstAmpX s m \<le> int (length (rows ! l))"
  shows "\<exists>rows'. b' = Grid rows' \<and> length rows' = length rows \<and>
           (\<forall>l. length (rows' ! l) = length (rows ! l)) \<and>
           (\<forall>p<nat (num_par_amps_det (fp s)). \<forall>k<nat (dstAmpY s m).
              row_done s m (prescan2 m + int k) (int p * num_ser_amps_det (fp s))
                (nat (num_ser_amps_det (fp s))) (rows' ! (p * nat (dstAmpY s m) + k)))"
proof -
  define dy where "dy = dstAmpY s m"
  define ns where "ns = num_ser_amps_det (fp s)"
  define np where "np = num_par_amps_det (fp s)"
  define xs where "xs = py_range 0 np"
  define I where "I = (\<lambda>p (b :: ndarray).
     (\<exists>rows'. b = Grid rows' \<and> length rows' = length rows \<and>
        (\<forall>l. length (rows' ! l) = length (rows ! l)) \<and>
        (\<forall>l'. p * nat dy \<le> l' \<longrightarrow> rows' ! l' = rows ! l') \<and>
        (\<forall>p'<p. \<forall>k<nat dy. row_done s m (prescan2 m + int k) (int p' * ns) (nat ns)
            (rows' ! (p' * nat dy + k)))))"
  have len: "length xs = nat np" by (simp add: xs_def length_py_range)
  have loop: "py_for xs (copy_group s m) (Grid rows) = (None, b')"
    using ca by (simp add: copy_all_def xs_def np_def)
  have i0: "I 0 (Grid rows)" by (simp add: I_def)
  have step: "I (Suc p) t'"
    if p: "p < length xs" and ip: "I p t" and b: "copy_group s m (xs ! p) t = (None, t')"
    for p t t'
  proof -
    obtain rows1 where t: "t = Grid rows1" and l1: "length rows1 = length rows"
      and lens: "\<forall>l. length (rows1 ! l) = length (rows ! l)"
      and oth: "\<forall>l'. p * nat dy \<le> l' \<longrightarrow> rows1 ! l' = rows ! l'"
      and dn: "\<forall>p'<p. \<forall>k<nat dy. row_done s m (prescan2 m + int k) (int p' * ns) (nat ns)
            (rows1 ! (p' * nat dy + k))"
      using ip by (auto simp: I_def)
    have xp: "xs ! p = int p" using p len by (simp add: xs_def nth_py_range)
    have "int (Suc p) \<le> np" using p len by simp
    then have "int (Suc p) * dy \<le> np * dy" using y0 by (intro mult_right_mono) (simp_all add: dy_def)
    then have rs1: "(int p + 1) * dstAmpY s m \<le> int (length rows1)"
      using rs l1 by (simp add: np_def dy_def algebra_simps)
    have fit1: "\<forall>l<length rows1. num_ser_amps_det (fp s) * dstAmpX s m \<le> int (length (rows1 ! l))"
      using fit lens l1 by simp
    from copy_group_Grid [OF b [unfolded t xp] fl d0 y0 _ rs1 fit1]
    obtain rows2 where t': "t' = Grid rows2" and l2: "length rows2 = length rows1"
      and lens2: "\<forall>l. length (rows2 ! l) = length (rows1 ! l)"
      and oth2: "\<forall>l'. l' < p * nat dy \<or> p * nat dy + nat dy \<le> l' \<longrightarrow> rows2 ! l' = rows1 ! l'"
      and dn2: "\<forall>k<nat dy. row_done s m (prescan2 m + int k) (int p * ns) (nat ns)
                   (rows2 ! (p * nat dy + k))"
      by (auto simp: dy_def ns_def)
    have oth3: "\<forall>l'. Suc p * nat dy \<le> l' \<longrightarrow> rows2 ! l' = rows ! l'"
    proof (intro allI impI)
      fix l' assume a: "Suc p * nat dy \<le> l'"
      then have "p * nat dy + nat dy \<le> l'" by (simp add: algebra_simps)
      moreover have "p * nat dy \<le> l'" using a by (simp add: algebra_simps)
      ultimately show "rows2 ! l' = rows ! l'" using oth oth2 by simp
    qed
    have dn3: "\<forall>p'<Suc p. \<forall>k<nat dy. row_done s m (prescan2 m + int k) (int p' * ns) (nat ns)
            (rows2 ! (p' * nat dy + k))"
    proof (intro allI impI)
      fix p' k assume pp: "p' < Suc p" and kk: "k < nat dy"
      from pp consider "p' < p" | "p' = p" by linarith
      then show "row_done s m (prescan2 m + int k) (int p' * ns) (nat ns) (rows2 ! (p' * nat dy + k))"
      proof cases
        case 1
        then have "Suc p' \<le> p" by simp
        then have "Suc p' * nat dy \<le> p * nat dy" by (rule mult_le_mono1)
        then have "p' * nat dy + k < p * nat dy" using kk by simp
        then have "rows2 ! (p' * nat dy + k) = rows1 ! (p' * nat dy + k)" using oth2 by simp
        then show ?thesis using dn 1 kk by simp
      next
        case 2
        then show ?thesis using dn2 kk by simp
      qed
    qed
    show ?thesis unfolding I_def t' using l1 l2 lens lens2 oth3 dn3 by simp
  qed
  have "I (length xs) b'"
    using py_for_inv [OF loop, of I] i0 step by blast
  then show ?thesis by (auto simp: I_def len ns_def dy_def np_def)
qed

section \<open>Shapes\<close>

lemma split_rows_shape:
  assumes "r * c \<le> length xs"
  shows "has_shape (Grid (split_rows xs r c)) r c"
proof -
  have "length (take c (drop (i * c) xs)) = c" if "i < r" for i
  proof -
    have "Suc i \<le> r" using that by simp
    then have "Suc i * c \<le> r * c" by (rule mult_le_mono1)
    then have "i * c + c \<le> length xs" using assms by simp
    then show ?thesis by simp
  qed
  then show ?thesis by (simp add: has_shape_def split_rows_def list_all_iff)
qed

lemma split_rows_concat:
  assumes "length rows = r" and "\<forall>row \<in> set rows. length row = c"
  shows "split_rows (concat rows) r c = rows"
  using assms
proof (induction rows arbitrary: r)
  case Nil
  then show ?case by (simp add: split_rows_def)
next
  case (Cons row rows)
  then obtain r' where r: "r = Suc r'" and l: "length rows = r'" by (cases r) auto
  have lr: "length row = c" using Cons.prems(2) by simp
  have ih: "split_rows (concat rows) r' c = rows" using Cons.IH [OF l] Cons.prems(2) by simp
  have "[0..<Suc r'] = 0 # map Suc [0..<r']" by (simp add: upt_conv_Cons map_Suc_upt del: upt_Suc)
  then have "split_rows (concat (row # rows)) (Suc r') c =
        take c (row @ concat rows) # map (\<lambda>i. take c (drop (Suc i * c) (row @ concat rows))) [0..<r']"
    by (simp add: split_rows_def comp_def del: upt_Suc)
  also have "\<dots> = row # map (\<lambda>i. take c (drop (i * c) (concat rows))) [0..<r']"
    using lr by simp
  also have "\<dots> = row # rows" using ih by (simp add: split_rows_def)
  finally show ?case by (simp add: r)
qed

lemma has_shape_Grid:
  "has_shape b r c \<longleftrightarrow> (\<exists>rows. b = Grid rows \<and> length rows = r \<and> (\<forall>row \<in> set rows. length row = c))"
  by (cases b) (auto simp: has_shape_def list_all_iff)

lemma reshape_same:
  assumes "has_shape b (nat r) (nat c)" and "0 \<le> r" and "0 \<le> c"
  shows "reshape b r c = Inr b"
proof -
  from assms(1) obtain rows where b: "b = Grid rows" and l: "length rows = nat r"
    and rl: "\<forall>row \<in> set rows. length row = nat c"
    by (auto simp: has_shape_Grid)
  have "length (concat rows) = length rows * nat c"
    using rl by (induction rows) auto
  then have "length (concat rows) = nat r * nat c" by (simp add: l)
  then show ?thesis
    using assms(2,3) split_rows_concat [OF l rl] by (simp add: reshape_def b Let_def)
qed

lemma reshape_shape:
  assumes "reshape b r c = Inr b'" and "0 \<le> r" and "0 \<le> c"
  shows "has_shape b' (nat r) (nat c)"
  using assms split_rows_shape [of "nat r" "nat c" "ravel b"]
  by (auto simp: reshape_def Let_def split: if_splits)

lemma numpy_empty_shape:
  assumes "numpy_empty mem r c = Inr b"
  shows "has_shape b (nat r) (nat c)"
  using assms split_rows_shape [of "nat r" "nat c" "map mem [0..<nat r * nat c]"]
  by (auto simp: numpy_empty_def split: if_splits)

section \<open>The assembled rows\<close>

lemma valid_geometry_cong:
  "fp a = fp b \<Longrightarrow> size_x a = size_x b \<Longrightarrow> size_y a = size_y b \<Longrightarrow>
   valid_geometry a = valid_geometry b"
  by (simp add: valid_geometry_def)

lemma segment_value_cong:
  assumes "fp a = fp b" and "data a = data b" and "offsets a = offsets b" and "scales a = scales b"
  shows "segment_value a m = segment_value b m"
proof -
  have 1: "posX a m = posX b m" using assms by (auto simp: posX_def fun_eq_iff)
  have 2: "dstAmpX a m = dstAmpX b m" using assms by (simp add: dstAmpX_def)
  show ?thesis unfolding segment_value_def fun_eq_iff 1 2 assms by (intro allI refl)
qed

lemma row_done_cong:
  "fp a = fp b \<Longrightarrow> data a = data b \<Longrightarrow> offsets a = offsets b \<Longrightarrow> scales a = scales b \<Longrightarrow>
   row_done a m = row_done b m"
  using segment_value_cong [of a b m]
  by (simp add: row_done_def dstAmpX_def fun_eq_iff)

lemma valid_geometry_nonneg:
  assumes "valid_geometry s"
  shows "0 \<le> dstAmpX s (margins_of trm s)" and "0 \<le> dstAmpY s (margins_of trm s)"
    and "0 \<le> numamps_x (fp s) * dstAmpX s (margins_of trm s)"
    and "0 \<le> numamps_y (fp s) * dstAmpY s (margins_of trm s)"
  using assms
  by (auto simp: valid_geometry_def dstAmpX_def dstAmpY_def margins_of_def)

lemma size_buffer_shape:
  assumes sz: "size_buffer trm s2 = Returned s3"
    and vg: "valid_geometry s2"
    and sh: "has_shape (buffer s2) (nat (size_y s2)) (nat (size_x s2))"
  shows "asmsize s3 = (numamps_x (fp s2) * dstAmpX s2 (margins_of trm s2),
                       numamps_y (fp s2) * dstAmpY s2 (margins_of trm s2))"
    and "has_shape (buffer s3) (nat (numamps_y (fp s2) * dstAmpY s2 (margins_of trm s2)))
                               (nat (numamps_x (fp s2) * dstAmpX s2 (margins_of trm s2)))"
proof -
  let ?m = "margins_of trm s2"
  let ?ax = "numamps_x (fp s2) * dstAmpX s2 ?m" and ?ay = "numamps_y (fp s2) * dstAmpY s2 ?m"
  have nn: "0 \<le> ?ax" "0 \<le> ?ay" using valid_geometry_nonneg [OF vg] by auto
  have sx: "size_x s2 = numamps_x (fp s2) * numcols_amp (fp s2)"
    and sy: "size_y s2 = numamps_y (fp s2) * numrows_amp (fp s2)"
    using vg by (auto simp: valid_geometry_def)
  have both: "asmsize s3 = (?ax, ?ay) \<and> has_shape (buffer s3) (nat ?ay) (nat ?ax)"
  proof (cases "trm = 1")
    case True
    have ax: "size_x s2 - numamps_x (fp s2) * numcols_overscan (fp s2)
                - numamps_x (fp s2) * numcols_underscan (fp s2) = ?ax"
      using True by (simp add: sx dstAmpX_def margins_of_def algebra_simps)
    have ay: "size_y s2 - numamps_y (fp s2) * numrows_overscan (fp s2)
                - numamps_y (fp s2) * numrows_underscan (fp s2) = ?ay"
      using True by (simp add: sy dstAmpY_def margins_of_def algebra_simps)
    from sz True obtain b b' where
      "numpy_resize (buffer s2) (?ax * ?ay) = Inr b" and rs: "reshape b ?ay ?ax = Inr b'"
      and s3: "s3 = s2\<lparr>asmsize := (?ax, ?ay), buffer := b'\<rparr>"
      unfolding size_buffer_def Let_def ax ay
      by (auto split: sum.splits)
    show ?thesis using reshape_shape [OF rs nn(2) nn(1)] by (simp add: s3)
  next
    case False
    have ax: "size_x s2 = ?ax" using False by (simp add: sx dstAmpX_def margins_of_def)
    have ay: "size_y s2 = ?ay" using False by (simp add: sy dstAmpY_def margins_of_def)
    show ?thesis
    proof (cases "length (concat (data s2)) \<noteq> array_size (buffer s2)")
      case True
      from sz False True obtain b b' where
        "numpy_resize (buffer s2) (size_x s2 * size_y s2) = Inr b"
        and rs: "reshape b (size_y s2) (size_x s2) = Inr b'"
        and s3: "s3 = s2\<lparr>asmsize := (size_x s2, size_y s2), buffer := b'\<rparr>"
        unfolding size_buffer_def Let_def
        by (auto split: sum.splits)
      show ?thesis using reshape_shape [OF rs] nn by (simp add: s3 ax ay)
    next
      case eq: False
      from sz False eq have s3: "s3 = s2\<lparr>asmsize := (size_x s2, size_y s2)\<rparr>"
        unfolding size_buffer_def Let_def by auto
      show ?thesis using sh by (simp add: s3 ax [symmetric] ay [symmetric])
    qed
  qed
  show "asmsize s3 = (?ax, ?ay)" using both by simp
  show "has_shape (buffer s3) (nat ?ay) (nat ?ax)" using both by simp
qed


lemma assemble_rows:
  assumes ret: "assemble mem trm s = Returned s'" and fresh: "assembled s = 0"
    and vi: "valid_image s"
  shows "\<exists>rows. buffer s' = Grid rows \<and>
           length rows = nat (numamps_y (fp s) * dstAmpY s (margins_of trm s)) \<and>
           (\<forall>l<length rows. length (rows ! l) = nat (numamps_x (fp s) * dstAmpX s (margins_of trm s))) \<and>
           asmsize s' = (numamps_x (fp s) * dstAmpX s (margins_of trm s),
                         numamps_y (fp s) * dstAmpY s (margins_of trm s)) \<and>
           (\<forall>p<nat (numamps_y (fp s)). \<forall>k<nat (dstAmpY s (margins_of trm s)).
              row_done s (margins_of trm s) (prescan2 (margins_of trm s) + int k)
                (int p * numamps_x (fp s)) (nat (numamps_x (fp s)))
                (rows ! (p * nat (dstAmpY s (margins_of trm s)) + k)))"
proof -
  define m where "m = margins_of trm s"
  define d where "d = dstAmpX s m"
  define dy where "dy = dstAmpY s m"
  define nx where "nx = numamps_x (fp s)"
  define ny where "ny = numamps_y (fp s)"
  let ?s1 = "s\<lparr>asmsize := (numcols_image (fp s), numrows_image (fp s))\<rparr>"
  from ret fresh obtain s2 s3 b where
    a: "alloc_buffer mem ?s1 = Inr s2" and
    sz: "size_buffer trm s2 = Returned s3" and
    ca: "copy_all (set_line_attrs (margins_of trm s3) s3) (margins_of trm s3) (buffer s3) = (None, b)" and
    f: "finish trm (set_line_attrs (margins_of trm s3) s3\<lparr>buffer := b\<rparr>) = Returned s'"
    by (rule assemble_run)
  have vg: "valid_geometry s" and fl: "\<forall>f \<in> set (amp_cfg (fp s)). f = 0 \<or> f = 1 \<or> f = 2 \<or> f = 3"
    and ff: "from_file s = 1 \<longrightarrow> has_shape (buffer s) (nat (size_y s)) (nat (size_x s))"
    using vi by (auto simp: valid_image_def list_all_iff)
  have ser: "num_ser_amps_det (fp s) = nx" and par: "num_par_amps_det (fp s) = ny"
    using vg by (auto simp: valid_geometry_def nx_def ny_def)
  note e2 = alloc_buffer_frame [OF a]
  have f2: "fp s2 = fp s" "size_x s2 = size_x s" "size_y s2 = size_y s" "data s2 = data s"
    "offsets s2 = offsets s" "scales s2 = scales s"
    using arg_cong [OF e2, of fp] arg_cong [OF e2, of size_x] arg_cong [OF e2, of size_y]
      arg_cong [OF e2, of data] arg_cong [OF e2, of offsets] arg_cong [OF e2, of scales]
    by simp_all
  have vg2: "valid_geometry s2" using vg valid_geometry_cong [of s2 s] f2 by simp
  have sh2: "has_shape (buffer s2) (nat (size_y s2)) (nat (size_x s2))"
  proof (cases "from_file s = 1")
    case True
    then have "s2 = ?s1" using a by (simp add: alloc_buffer_def)
    then show ?thesis using ff True by simp
  next
    case False
    then obtain b0 where ne: "numpy_empty mem (size_y s) (size_x s) = Inr b0" and "s2 = ?s1\<lparr>buffer := b0\<rparr>"
      using a by (auto simp: alloc_buffer_def split: sum.splits)
    then show ?thesis using numpy_empty_shape [OF ne] by simp
  qed
  have m2: "margins_of trm s2 = m" by (simp add: margins_of_def m_def f2)
  have d2: "dstAmpX s2 m = d" "dstAmpY s2 m = dy" by (simp_all add: dstAmpX_def dstAmpY_def d_def dy_def f2)
  note shp = size_buffer_shape [OF sz vg2 sh2, unfolded m2 d2 f2, folded nx_def ny_def]
  note e3 = size_buffer_frame [OF sz]
  have f3: "fp s3 = fp s" "data s3 = data s" "offsets s3 = offsets s" "scales s3 = scales s"
    using arg_cong [OF e3, of fp] arg_cong [OF e3, of data] arg_cong [OF e3, of offsets]
      arg_cong [OF e3, of scales] f2
    by simp_all
  have m3: "margins_of trm s3 = m" by (simp add: margins_of_def m_def f3)
  define s4 where "s4 = set_line_attrs m s3"
  have f4: "fp s4 = fp s" "data s4 = data s" "offsets s4 = offsets s" "scales s4 = scales s"
    "asmsize s4 = asmsize s3"
    by (simp_all add: s4_def set_line_attrs_def f3)
  have d4: "dstAmpX s4 m = d" "dstAmpY s4 m = dy"
    by (simp_all add: dstAmpX_def dstAmpY_def d_def dy_def f4)
  have nn: "0 \<le> d" "0 \<le> dy" "0 \<le> nx * d" "0 \<le> ny * dy"
    using valid_geometry_nonneg [OF vg, of trm] by (simp_all add: d_def dy_def m_def nx_def ny_def)
  from shp(2) obtain rows3 where b3: "buffer s3 = Grid rows3" and l3: "length rows3 = nat (ny * dy)"
    and r3: "\<forall>row \<in> set rows3. length row = nat (nx * d)"
    by (auto simp: has_shape_Grid)
  have ca': "copy_all s4 m (Grid rows3) = (None, b)" using ca by (simp add: m3 s4_def b3)
  have fl4: "\<forall>f \<in> set (amp_cfg (fp s4)). f = 0 \<or> f = 1 \<or> f = 2 \<or> f = 3" using fl by (simp add: f4)
  have rs: "num_par_amps_det (fp s4) * dstAmpY s4 m \<le> int (length rows3)"
    using nn by (simp add: f4 par d4 l3)
  have fit: "\<forall>l<length rows3. num_ser_amps_det (fp s4) * dstAmpX s4 m \<le> int (length (rows3 ! l))"
    using nn r3 by (simp add: f4 ser d4)
  from copy_all_Grid [OF ca' fl4 _ _ rs fit]
  obtain rows' where b: "b = Grid rows'" and l': "length rows' = length rows3"
    and lens: "\<forall>l. length (rows' ! l) = length (rows3 ! l)"
    and dn: "\<forall>p<nat ny. \<forall>k<nat dy.
              row_done s4 m (prescan2 m + int k) (int p * nx) (nat nx) (rows' ! (p * nat dy + k))"
    using nn by (auto simp: d4 f4 par ser)
  have rd: "row_done s4 m = row_done s m" by (rule row_done_cong) (simp_all add: f4)
  have shb: "has_shape (Grid rows') (nat (ny * dy)) (nat (nx * d))"
    using l' l3 lens r3 nth_mem [of _ rows3] by (auto simp: has_shape_Grid in_set_conv_nth)
  have as4: "asmsize s4 = (nx * d, ny * dy)" using shp(1) by (simp add: f4)
  have rsh: "reshape (Grid rows') (ny * dy) (nx * d) = Inr (Grid rows')"
    by (rule reshape_same [OF shb nn(4) nn(3)])
  have f': "finish trm (s4\<lparr>buffer := Grid rows'\<rparr>) = Returned s'"
    using f by (simp add: m3 s4_def b)
  have "s' = (if trm = 1 then s4\<lparr>buffer := Grid rows', assembled := 1, trimmed := 1\<rparr>
              else s4\<lparr>buffer := Grid rows', assembled := 1\<rparr>)"
    using f' by (simp add: finish_def as4 rsh Let_def split: if_splits)
  then have bs': "buffer s' = Grid rows'" and as': "asmsize s' = (nx * d, ny * dy)"
    using as4 by (simp_all split: if_splits)
  have len': "length rows' = nat (ny * dy)" using l' l3 by simp
  have rl': "\<forall>l<length rows'. length (rows' ! l) = nat (nx * d)"
    using lens r3 l' nth_mem [of _ rows3] by simp
  have dn': "\<forall>p<nat ny. \<forall>k<nat dy.
              row_done s m (prescan2 m + int k) (int p * nx) (nat nx) (rows' ! (p * nat dy + k))"
    using dn by (simp only: rd)
  show ?thesis
    unfolding m_def [symmetric] d_def [symmetric] dy_def [symmetric] nx_def [symmetric] ny_def [symmetric]
  proof (intro exI conjI)
    show "buffer s' = Grid rows'" by (rule bs')
    show "length rows' = nat (ny * dy)" by (rule len')
    show "\<forall>l<length rows'. length (rows' ! l) = nat (nx * d)" by (rule rl')
    show "asmsize s' = (nx * d, ny * dy)" by (rule as')
    show "\<forall>p<nat ny. \<forall>k<nat dy.
              row_done s m (prescan2 m + int k) (int p * nx) (nat nx) (rows' ! (p * nat dy + k))"
      by (rule dn')
  qed
qed

lemma assemble_returned_flags:
  assumes "assemble mem trm s = Returned s'"
  shows "is_valid s' \<noteq> 0 \<and> assembled s' \<noteq> 0"
proof (cases "assembled s = 0")
  case False
  then show ?thesis using assms by (auto simp: assemble_def split: if_splits)
next
  case True
  from assms True obtain s2 s3 b where
    v: "is_valid s \<noteq> 0" and
    a: "alloc_buffer mem (s\<lparr>asmsize := (numcols_image (fp s), numrows_image (fp s))\<rparr>) = Inr s2" and
    sz: "size_buffer trm s2 = Returned s3" and
    f: "finish trm (set_line_attrs (margins_of trm s3) s3\<lparr>buffer := b\<rparr>) = Returned s'"
    by (rule assemble_run)
  have "is_valid s2 = is_valid s" using arg_cong [OF alloc_buffer_frame [OF a], of is_valid] by simp
  moreover have "is_valid s3 = is_valid s2" using arg_cong [OF size_buffer_frame [OF sz], of is_valid] by simp
  moreover have "is_valid s' = is_valid s3 \<and> assembled s' = 1"
    using arg_cong [OF finish_frame [OF f], of is_valid] arg_cong [OF finish_frame [OF f], of assembled]
    by (simp add: set_line_attrs_def)
  ultimately show ?thesis using v by simp
qed

lemma assemble_untrimmed_eq:
  assumes "trm \<noteq> 1"
  shows "assemble mem trm s = assemble mem 0 s"
proof -
  have 1: "size_buffer trm = size_buffer 0"
    using assms by (auto simp: size_buffer_def fun_eq_iff)
  have 2: "margins_of trm = margins_of 0"
    using assms by (auto simp: margins_of_def fun_eq_iff)
  have 3: "finish trm = finish 0"
    using assms by (auto simp: finish_def fun_eq_iff split: sum.splits)
  show ?thesis unfolding assemble_def 1 2 3 ..
qed

section \<open>One destination segment of the assembled buffer\<close>

lemma assemble_segment:
  assumes ret: "assemble mem trm s = Returned s'" and fresh: "assembled s = 0"
    and vi: "valid_image s"
    and m: "m = margins_of trm s"
    and p: "p < nat (numamps_y (fp s))" and k: "k < nat (dstAmpY s m)"
    and j: "j < nat (numamps_x (fp s))"
    and x: "py_index (jpg_ext (fp s)) (int p * numamps_x (fp s) + int j) = Inr x"
    and f: "py_index (amp_cfg (fp s)) (x - 1) = Inr flip"
    and a: "py_index (data s) (x - 1) = Inr amp"
    and off: "py_index (offsets s) (x - 1) = Inr off"
    and sc: "py_index (scales s) (x - 1) = Inr sc"
  shows "dest_segment (buffer s') (p * nat (dstAmpY s m) + k) j (nat (dstAmpX s m))
           = broadcast (nat (dstAmpX s m))
               (calibrate off sc (source_segment s m flip amp (prescan2 m + int k)))"
    and "length (source_segment s m flip amp (prescan2 m + int k)) = nat (dstAmpX s m) \<or>
         length (source_segment s m flip amp (prescan2 m + int k)) = 1"
    and "p * nat (dstAmpY s m) + k < nat (numamps_y (fp s) * dstAmpY s m)"
    and "j * nat (dstAmpX s m) + nat (dstAmpX s m)
           \<le> length (buffer_row (buffer s') (p * nat (dstAmpY s m) + k))"
proof -
  from assemble_rows [OF ret fresh vi, folded m]
  obtain rows where b: "buffer s' = Grid rows"
    and len: "length rows = nat (numamps_y (fp s) * dstAmpY s m)"
    and rl: "\<forall>l<length rows. length (rows ! l) = nat (numamps_x (fp s) * dstAmpX s m)"
    and dn: "\<forall>p<nat (numamps_y (fp s)). \<forall>k<nat (dstAmpY s m).
              row_done s m (prescan2 m + int k) (int p * numamps_x (fp s))
                (nat (numamps_x (fp s))) (rows ! (p * nat (dstAmpY s m) + k))"
    by blast
  have sv: "segment_value s m (prescan2 m + int k) (int p * numamps_x (fp s) + int j)
              = Inr (calibrate off sc (source_segment s m flip amp (prescan2 m + int k)))"
    using x f a off sc by (simp add: segment_value_def source_segment_def Let_def)
  from dn p k have "row_done s m (prescan2 m + int k) (int p * numamps_x (fp s))
                (nat (numamps_x (fp s))) (rows ! (p * nat (dstAmpY s m) + k))" by blast
  then obtain v where "segment_value s m (prescan2 m + int k) (int p * numamps_x (fp s) + int j) = Inr v"
    and "length v = nat (dstAmpX s m) \<or> length v = 1"
    and "take (nat (dstAmpX s m)) (drop (j * nat (dstAmpX s m)) (rows ! (p * nat (dstAmpY s m) + k)))
           = broadcast (nat (dstAmpX s m)) v"
    using j unfolding row_done_def by blast
  with sv
  have seg: "take (nat (dstAmpX s m)) (drop (j * nat (dstAmpX s m)) (rows ! (p * nat (dstAmpY s m) + k)))
          = broadcast (nat (dstAmpX s m)) (calibrate off sc (source_segment s m flip amp (prescan2 m + int k)))"
    and lv: "length (calibrate off sc (source_segment s m flip amp (prescan2 m + int k))) = nat (dstAmpX s m) \<or>
             length (calibrate off sc (source_segment s m flip amp (prescan2 m + int k))) = 1"
    by simp_all
  show "dest_segment (buffer s') (p * nat (dstAmpY s m) + k) j (nat (dstAmpX s m))
           = broadcast (nat (dstAmpX s m))
               (calibrate off sc (source_segment s m flip amp (prescan2 m + int k)))"
    using seg by (simp add: dest_segment_def buffer_row_def b)
  show "length (source_segment s m flip amp (prescan2 m + int k)) = nat (dstAmpX s m) \<or>
         length (source_segment s m flip amp (prescan2 m + int k)) = 1"
    using lv by (simp add: calibrate_def)
  have vg: "valid_geometry s" using vi by (simp add: valid_image_def)
  have nn: "0 \<le> dstAmpX s m" "0 \<le> dstAmpY s m" "0 \<le> numamps_x (fp s)" "0 \<le> numamps_y (fp s)"
    using valid_geometry_nonneg [OF vg, of trm] vg by (simp_all add: m valid_geometry_def)
  have "Suc p \<le> nat (numamps_y (fp s))" using p by simp
  then have "Suc p * nat (dstAmpY s m) \<le> nat (numamps_y (fp s)) * nat (dstAmpY s m)"
    by (rule mult_le_mono1)
  then have "p * nat (dstAmpY s m) + k < nat (numamps_y (fp s)) * nat (dstAmpY s m)"
    using k by simp
  then show lt: "p * nat (dstAmpY s m) + k < nat (numamps_y (fp s) * dstAmpY s m)"
    using nn by (simp add: nat_mult_distrib)
  have "Suc j \<le> nat (numamps_x (fp s))" using j by simp
  then have "Suc j * nat (dstAmpX s m) \<le> nat (numamps_x (fp s)) * nat (dstAmpX s m)"
    by (rule mult_le_mono1)
  then have "j * nat (dstAmpX s m) + nat (dstAmpX s m) \<le> nat (numamps_x (fp s) * dstAmpX s m)"
    using nn by (simp add: nat_mult_distrib)
  then show "j * nat (dstAmpX s m) + nat (dstAmpX s m)
           \<le> length (buffer_row (buffer s') (p * nat (dstAmpY s m) + k))"
    using rl lt len by (simp add: buffer_row_def b)
qed

lemma py_slice_inrange:
  assumes "0 \<le> a" and "0 \<le> n" and "a + n \<le> int (length xs)"
  shows "py_slice xs a (a + n) = take (nat n) (drop (nat a) xs)"
proof -
  have "slice_bound (length xs) a = nat a" using assms by (intro slice_bound_inrange) auto
  moreover have "slice_bound (length xs) (a + n) = nat (a + n)" using assms by (intro slice_bound_inrange) auto
  moreover have "nat (a + n) - nat a = nat n" using assms by simp
  ultimately show ?thesis by (simp add: py_slice_def)
qed

lemma py_slice_row:
  assumes vg: "valid_geometry s" and m: "m = margins_of trm s"
    and la: "int (length amp) = numcols_amp (fp s) * numrows_amp (fp s)"
    and r0: "0 \<le> r" and r1: "r < numrows_amp (fp s)"
  shows "py_slice amp (r * numcols_amp (fp s) + prescan1 m)
           (r * numcols_amp (fp s) + prescan1 m + dstAmpX s m)
         = trimmed_cols s m (amp_row s amp r)"
proof -
  define ax where "ax = numcols_amp (fp s)"
  define d where "d = dstAmpX s m"
  define p1 where "p1 = prescan1 m"
  have p10: "0 \<le> p1" and d0: "0 \<le> d" and fitc: "p1 + d \<le> ax" and ax0: "0 \<le> ax"
    using vg by (auto simp: valid_geometry_def p1_def d_def ax_def m margins_of_def dstAmpX_def)
  have "(r + 1) * ax \<le> numrows_amp (fp s) * ax" using r1 ax0 by (intro mult_right_mono) auto
  then have fit: "r * ax + p1 + d \<le> int (length amp)"
    using fitc la by (simp add: ax_def algebra_simps)
  have a0: "0 \<le> r * ax + p1" using r0 ax0 p10 by simp
  have "py_slice amp (r * ax + p1) (r * ax + p1 + d) = take (nat d) (drop (nat (r * ax + p1)) amp)"
    using a0 d0 fit by (rule py_slice_inrange)
  also have "nat (r * ax + p1) = nat p1 + nat (r * ax)"
    using r0 ax0 p10 by (simp add: nat_add_distrib)
  also have "take (nat d) (drop (nat p1 + nat (r * ax)) amp)
        = take (nat d) (drop (nat p1) (take (nat ax) (drop (nat (r * ax)) amp)))"
    using fitc p10 d0 by (simp add: drop_take min_def nat_le_iff)
  finally show ?thesis by (simp add: trimmed_cols_def amp_row_def ax_def d_def p1_def)
qed

lemma py_slice_row_length:
  assumes vg: "valid_geometry s" and m: "m = margins_of trm s"
    and la: "int (length amp) = numcols_amp (fp s) * numrows_amp (fp s)"
    and r0: "0 \<le> r" and r1: "r < numrows_amp (fp s)"
  shows "length (trimmed_cols s m (amp_row s amp r)) = nat (dstAmpX s m)"
proof -
  define ax where "ax = numcols_amp (fp s)"
  define d where "d = dstAmpX s m"
  define p1 where "p1 = prescan1 m"
  have p10: "0 \<le> p1" and d0: "0 \<le> d" and fitc: "p1 + d \<le> ax" and ax0: "0 \<le> ax"
    using vg by (auto simp: valid_geometry_def p1_def d_def ax_def m margins_of_def dstAmpX_def)
  have "(r + 1) * ax \<le> numrows_amp (fp s) * ax" using r1 ax0 by (intro mult_right_mono) auto
  then have fit: "r * ax + p1 + d \<le> int (length amp)"
    using fitc la by (simp add: ax_def algebra_simps)
  have a0: "0 \<le> r * ax + p1" using r0 ax0 p10 by simp
  have "length (py_slice amp (r * ax + p1) (r * ax + p1 + d)) = nat d"
    using py_slice_inrange [OF a0 d0 fit] a0 d0 fit by simp
  then show ?thesis
    using py_slice_row [OF vg m la r0 r1] by (simp add: ax_def d_def p1_def)
qed

lemma broadcast_same: "length v = n \<Longrightarrow> broadcast n v = v"
  by (simp add: broadcast_def)

lemma broadcast_calibrate_nth:
  assumes "length xs = n \<or> length xs = 1" and "c < n"
  shows "broadcast n (calibrate off sc xs) ! c = (broadcast n xs ! c - off) * sc"
    and "broadcast n xs ! c \<in> set xs"
proof -
  show "broadcast n (calibrate off sc xs) ! c = (broadcast n xs ! c - off) * sc"
  proof (cases "length xs = n")
    case True
    then show ?thesis using assms(2) by (simp add: broadcast_def calibrate_def)
  next
    case False
    then have "length xs = 1" using assms(1) by simp
    then obtain x where "xs = [x]" by (cases xs) auto
    then show ?thesis using False assms(2) by (simp add: broadcast_def calibrate_def)
  qed
  show "broadcast n xs ! c \<in> set xs"
  proof (cases "length xs = n")
    case True
    then show ?thesis using assms(2) by (simp add: broadcast_def)
  next
    case False
    then have "length xs = 1" using assms(1) by simp
    then obtain x where "xs = [x]" by (cases xs) auto
    then show ?thesis using False assms(2) by (simp add: broadcast_def)
  qed
qed

lemma set_py_slice: "set (py_slice xs a b) \<subseteq> set xs"
  unfolding py_slice_def Let_def
  by (meson set_take_subset set_drop_subset subset_trans)

lemma set_source_segment: "set (source_segment s m flip amp srcLine) \<subseteq> set amp"
  using set_py_slice [of amp "posX s m flip srcLine" "posX s m flip srcLine + dstAmpX s m"]
  by (auto simp: source_segment_def Let_def)

lemma valid_image_amp_length:
  assumes "valid_image s" and "py_index (data s) i = Inr amp"
  shows "int (length amp) = numcols_amp (fp s) * numrows_amp (fp s)"
  using assms py_index_mem [OF assms(2)] by (auto simp: valid_image_def list_all_iff)

lemma size_buffer_asmsize:
  assumes sz: "size_buffer trm s2 = Returned s3" and vg: "valid_geometry s2"
  shows "asmsize s3 = (numamps_x (fp s2) * dstAmpX s2 (margins_of trm s2),
                       numamps_y (fp s2) * dstAmpY s2 (margins_of trm s2))"
proof -
  have sx: "size_x s2 = numamps_x (fp s2) * numcols_amp (fp s2)"
    and sy: "size_y s2 = numamps_y (fp s2) * numrows_amp (fp s2)"
    using vg by (auto simp: valid_geometry_def)
  show ?thesis
  proof (cases "trm = 1")
    case True
    then have "asmsize s3 =
       (size_x s2 - numamps_x (fp s2) * numcols_overscan (fp s2)
          - numamps_x (fp s2) * numcols_underscan (fp s2),
        size_y s2 - numamps_y (fp s2) * numrows_overscan (fp s2)
          - numamps_y (fp s2) * numrows_underscan (fp s2))"
      using sz by (auto simp: size_buffer_def Let_def split: sum.splits)
    then show ?thesis
      using True by (simp add: sx sy dstAmpX_def dstAmpY_def margins_of_def algebra_simps)
  next
    case False
    then have "asmsize s3 = (size_x s2, size_y s2)"
      using sz by (auto simp: size_buffer_def Let_def split: sum.splits if_splits)
    then show ?thesis
      using False by (simp add: sx sy dstAmpX_def dstAmpY_def margins_of_def)
  qed
qed

section \<open>Independence of the \<open>trim\<close> attribute\<close>

lemma write_segment_cong:
  assumes "data a = data b" and "offsets a = offsets b" and "scales a = scales b"
  shows "write_segment a = write_segment b"
  unfolding write_segment_def fun_eq_iff assms by (intro allI refl)

lemma copy_ext_cong:
  assumes "fp a = fp b" and "data a = data b" and "offsets a = offsets b" and "scales a = scales b"
  shows "copy_ext a m = copy_ext b m"
proof -
  have 1: "posX a m = posX b m" using assms by (auto simp: posX_def fun_eq_iff)
  have 2: "dstAmpX a m = dstAmpX b m" using assms by (simp add: dstAmpX_def)
  have 3: "write_segment a = write_segment b" using assms by (intro write_segment_cong)
  show ?thesis unfolding copy_ext_def fun_eq_iff 1 2 3 assms(1) by (intro allI refl)
qed

lemma copy_all_cong:
  assumes "fp a = fp b" and "data a = data b" and "offsets a = offsets b" and "scales a = scales b"
  shows "copy_all a m = copy_all b m"
proof -
  have 1: "copy_ext a m = copy_ext b m" using assms by (rule copy_ext_cong)
  have 2: "copy_line a m = copy_line b m"
    unfolding copy_line_def fun_eq_iff 1 assms(1) by (intro allI refl)
  have 3: "dstAmpY a m = dstAmpY b m" using assms by (simp add: dstAmpY_def)
  have 4: "copy_group a m = copy_group b m"
    unfolding copy_group_def fun_eq_iff 2 3 assms(1) by (intro allI refl)
  show ?thesis unfolding copy_all_def fun_eq_iff 4 assms(1) by (intro allI refl)
qed

lemma assemble_trim_attr:
  "assemble mem trm (s\<lparr>trim := t\<rparr>) = map_outcome (\<lambda>u. u\<lparr>trim := t\<rparr>) (assemble mem trm s)"
proof -
  have ca: "copy_all (u\<lparr>trim := t\<rparr>) m = copy_all u m" for u m
    by (rule copy_all_cong) simp_all
  have al: "alloc_buffer mem (u\<lparr>trim := t\<rparr>) = map_sum id (\<lambda>u. u\<lparr>trim := t\<rparr>) (alloc_buffer mem u)" for u
    by (simp add: alloc_buffer_def split: sum.splits)
  have sb: "size_buffer trm (u\<lparr>trim := t\<rparr>) = map_outcome (\<lambda>u. u\<lparr>trim := t\<rparr>) (size_buffer trm u)" for u
    by (simp add: size_buffer_def Let_def split: sum.splits)
  have fi: "finish trm (u\<lparr>trim := t\<rparr>) = map_outcome (\<lambda>u. u\<lparr>trim := t\<rparr>) (finish trm u)" for u
    by (simp add: finish_def Let_def split: sum.splits)
  have mo: "margins_of trm (u\<lparr>trim := t\<rparr>) = margins_of trm u" for u
    by (simp add: margins_of_def)
  have sl: "set_line_attrs m (u\<lparr>trim := t\<rparr>) = (set_line_attrs m u)\<lparr>trim := t\<rparr>" for u m
    by (simp add: set_line_attrs_def)
  show ?thesis
  proof (cases "is_valid s = 0 \<or> assembled s \<noteq> 0")
    case True
    then show ?thesis by (auto simp: assemble_def)
  next
    case False
    let ?s1 = "s\<lparr>asmsize := (numcols_image (fp s), numrows_image (fp s))\<rparr>"
    have s1: "s\<lparr>trim := t, asmsize := (numcols_image (fp s), numrows_image (fp s))\<rparr> = ?s1\<lparr>trim := t\<rparr>"
      by simp
    show ?thesis
    proof (cases "alloc_buffer mem ?s1")
      case (Inl e)
      then show ?thesis using False by (simp add: assemble_def s1 al)
    next
      case (Inr s2)
      show ?thesis
      proof (cases "size_buffer trm s2")
        case (Raised e s3)
        then show ?thesis using False Inr by (simp add: assemble_def s1 al sb)
      next
        case (Returned s3)
        obtain r b where c: "copy_all (set_line_attrs (margins_of trm s3) s3) (margins_of trm s3) (buffer s3) = (r, b)"
          by (cases "copy_all (set_line_attrs (margins_of trm s3) s3) (margins_of trm s3) (buffer s3)")
        have bt: "(set_line_attrs m s3)\<lparr>trim := t, buffer := b\<rparr> = (set_line_attrs m s3)\<lparr>buffer := b, trim := t\<rparr>" for m
          by simp
        have b4: "buffer (set_line_attrs m u) = buffer u" for m u
          by (simp add: set_line_attrs_def)
        have fi': "finish trm (u\<lparr>trim := t, buffer := b\<rparr>)
                     = map_outcome (\<lambda>u. u\<lparr>trim := t\<rparr>) (finish trm (u\<lparr>buffer := b\<rparr>))" for u
        proof -
          have sw: "u\<lparr>trim := t, buffer := b\<rparr> = u\<lparr>buffer := b, trim := t\<rparr>"
            by (cases u) simp
          show ?thesis unfolding sw by (rule fi)
        qed
        show ?thesis using False Inr Returned c
          by (cases r) (simp_all add: assemble_def s1 al sb mo sl ca fi' b4 Let_def)
      qed
    qed
  qed
qed

lemma assemble_untrimmed_size:
  assumes ret: "assemble mem trm s = Returned s'" and fresh: "assembled s = 0" and nt: "trm \<noteq> 1"
  shows "asmsize s' = (size_x s, size_y s) \<and> trimmed s' = trimmed s"
proof -
  let ?s1 = "s\<lparr>asmsize := (numcols_image (fp s), numrows_image (fp s))\<rparr>"
  from ret fresh obtain s2 s3 b where
    a: "alloc_buffer mem ?s1 = Inr s2" and
    sz: "size_buffer trm s2 = Returned s3" and
    f: "finish trm (set_line_attrs (margins_of trm s3) s3\<lparr>buffer := b\<rparr>) = Returned s'"
    by (rule assemble_run)
  note e2 = alloc_buffer_frame [OF a]
  have f2: "size_x s2 = size_x s" "size_y s2 = size_y s" "trimmed s2 = trimmed s"
    using arg_cong [OF e2, of size_x] arg_cong [OF e2, of size_y] arg_cong [OF e2, of trimmed]
    by simp_all
  have a3: "asmsize s3 = (size_x s2, size_y s2)"
    using sz nt by (auto simp: size_buffer_def Let_def split: if_splits sum.splits)
  have t3: "trimmed s3 = trimmed s2"
    using arg_cong [OF size_buffer_frame [OF sz], of trimmed] by simp
  note e4 = finish_frame [OF f]
  have "asmsize s' = asmsize s3" "trimmed s' = trimmed s3"
    using arg_cong [OF e4, of asmsize] arg_cong [OF e4, of trimmed] nt
    by (simp_all add: set_line_attrs_def)
  then show ?thesis using a3 t3 f2 by simp
qed

section \<open>The assembly of a well-formed image returns\<close>

lemma py_for_total:
  assumes "I 0 s"
    and "\<And>k t. k < length xs \<Longrightarrow> I k t \<Longrightarrow> \<exists>t'. body (xs ! k) t = (None, t') \<and> I (Suc k) t'"
  shows "\<exists>s'. py_for xs body s = (None, s') \<and> I (length xs) s'"
  using assms
proof (induction xs arbitrary: s I)
  case Nil
  then show ?case by simp
next
  case (Cons x xs)
  from Cons.prems(2) [of 0 s] Cons.prems(1)
  obtain s1 where b: "body x s = (None, s1)" and i1: "I (Suc 0) s1" by auto
  have "\<exists>s'. py_for xs body s1 = (None, s') \<and> (\<lambda>k. I (Suc k)) (length xs) s'"
  proof (rule Cons.IH [of "\<lambda>k. I (Suc k)" s1])
    show "I (Suc 0) s1" by (rule i1)
  next
    fix k t
    assume "k < length xs" "I (Suc k) t"
    then show "\<exists>t'. body (xs ! k) t = (None, t') \<and> I (Suc (Suc k)) t'"
      using Cons.prems(2) [of "Suc k" t] by simp
  qed
  then show ?case using b by simp
qed

lemma py_index_ok: "0 \<le> i \<Longrightarrow> i < int (length xs) \<Longrightarrow> py_index xs i = Inr (xs ! nat i)"
  by (simp add: py_index_def norm_index_def)

lemma norm_index_ok: "0 \<le> i \<Longrightarrow> i < int n \<Longrightarrow> norm_index n i = Inr (nat i)"
  by (simp add: norm_index_def)

lemma setitem_slice_ok:
  assumes "0 \<le> a" and "0 \<le> d" and "a + d \<le> int (length row)" and "length v = nat d"
  shows "\<exists>row'. setitem_slice row a (a + d) v = Inr row'"
proof -
  have lo: "slice_bound (length row) a = nat a" using assms by (intro slice_bound_inrange) auto
  have hi: "slice_bound (length row) (a + d) = nat (a + d)" using assms by (intro slice_bound_inrange) auto
  have n: "nat (a + d) - nat a = nat d" using assms by simp
  show ?thesis using assms(4) by (simp add: setitem_slice_def Let_def lo hi n)
qed

lemma copy_ext_total:
  assumes vi: "valid_image s" and wi: "well_indexed s" and m: "m = margins_of trm s"
    and lk: "line_ok s m srcLine"
    and c0: "0 \<le> c" and c1: "c < numamps_x (fp s) * numamps_y (fp s)"
    and l0: "0 \<le> line" and l1: "line < int (length rows)"
    and s0: "0 \<le> ls" and fit: "ls + dstAmpX s m \<le> int (length (rows ! nat line))"
  shows "\<exists>t'. copy_ext s m line srcLine c (Grid rows, ls) = (None, t')"
proof -
  define n where "n = numamps_x (fp s) * numamps_y (fp s)"
  have vg: "valid_geometry s" using vi by (simp add: valid_image_def)
  have lens: "int (length (jpg_ext (fp s))) = n" "int (length (amp_cfg (fp s))) = n"
    "int (length (data s)) = n" "int (length (offsets s)) = n" "int (length (scales s)) = n"
    and rng: "\<forall>x \<in> set (jpg_ext (fp s)). 1 \<le> x \<and> x \<le> n"
    using wi by (simp_all add: well_indexed_def Let_def n_def list_all_iff)
  define x where "x = jpg_ext (fp s) ! nat c"
  have xi: "py_index (jpg_ext (fp s)) c = Inr x"
    using c0 c1 lens(1) by (simp add: py_index_ok x_def n_def)
  have "x \<in> set (jpg_ext (fp s))" using xi by (rule py_index_mem)
  then have x0: "0 \<le> x - 1" and x1: "x - 1 < n" using rng by auto
  define flip where "flip = amp_cfg (fp s) ! nat (x - 1)"
  define amp where "amp = data s ! nat (x - 1)"
  define off where "off = offsets s ! nat (x - 1)"
  define sc where "sc = scales s ! nat (x - 1)"
  have fi: "py_index (amp_cfg (fp s)) (x - 1) = Inr flip"
    and ai: "py_index (data s) (x - 1) = Inr amp"
    and oi: "py_index (offsets s) (x - 1) = Inr off"
    and si: "py_index (scales s) (x - 1) = Inr sc"
    using x0 x1 lens by (simp_all add: py_index_ok flip_def amp_def off_def sc_def)
  have fm: "flip \<in> set (amp_cfg (fp s))" using fi by (rule py_index_mem)
  then have fv: "flip = 0 \<or> flip = 1 \<or> flip = 2 \<or> flip = 3"
    using vi by (auto simp: valid_image_def list_all_iff)
  have la: "int (length amp) = numcols_amp (fp s) * numrows_amp (fp s)"
    using vi ai by (rule valid_image_amp_length)
  define r where "r = (if flip = 0 \<or> flip = 1 then srcLine
                       else if flip = 2 then numrows_amp (fp s) - srcLine - overscan2 m - 1
                       else numrows_amp (fp s) - srcLine - prescan2 m - 1)"
  have px: "posX s m flip srcLine = r * numcols_amp (fp s) + prescan1 m"
    by (auto simp: posX_def r_def)
  have r0: "0 \<le> r" and r1: "r < numrows_amp (fp s)"
    using lk fv fm by (auto simp: line_ok_def r_def list_all_iff)
  let ?seg = "py_slice amp (posX s m flip srcLine) (posX s m flip srcLine + dstAmpX s m)"
  have "?seg = trimmed_cols s m (amp_row s amp r)"
    unfolding px by (rule py_slice_row [OF vg m la r0 r1])
  then have ls: "length ?seg = nat (dstAmpX s m)"
    using py_slice_row_length [OF vg m la r0 r1] by simp
  let ?v = "calibrate off sc (if reversed flip then rev ?seg else ?seg)"
  have lv: "length ?v = nat (dstAmpX s m)" using ls by (simp add: calibrate_def)
  have d0: "0 \<le> dstAmpX s m" using valid_geometry_nonneg(1) [OF vg] by (simp add: m)
  obtain row' where w: "setitem_slice (rows ! nat line) ls (ls + dstAmpX s m) ?v = Inr row'"
    using setitem_slice_ok [OF s0 d0 fit lv] by blast
  have ni: "norm_index (length rows) line = Inr (nat line)" using l0 l1 by (rule norm_index_ok)
  have "write_segment s (dstAmpX s m) (x - 1) (posX s m flip srcLine) (reversed flip) line ls (Grid rows)
          = Inr (Grid (rows[nat line := row']))"
    using ai oi si ni w by (simp add: write_segment_def Let_def)
  then show ?thesis using xi fi fv by (simp add: copy_ext_def Let_def)
qed


lemma line_ok_valid:
  assumes vg: "valid_geometry s" and m: "m = margins_of trm s" and mr: "mirror_rows_ok trm s"
    and k: "k < nat (dstAmpY s m)"
  shows "line_ok s m (prescan2 m + int k)"
proof -
  have nn: "0 \<le> prescan2 m" "0 \<le> overscan2 m"
    using vg by (simp_all add: valid_geometry_def m margins_of_def)
  have kk: "prescan2 m + int k < numrows_amp (fp s) - overscan2 m"
    using k by (simp add: dstAmpY_def)
  have "prescan2 m \<le> overscan2 m \<or> list_all (\<lambda>f. f \<noteq> 3) (amp_cfg (fp s))"
    using mr by (auto simp: mirror_rows_ok_def m margins_of_def)
  then show ?thesis using nn kk by (auto simp: line_ok_def)
qed

lemma copy_line_total:
  assumes vi: "valid_image s" and wi: "well_indexed s" and m: "m = margins_of trm s"
    and lk: "line_ok s m srcLine"
    and e0: "0 \<le> extBase"
    and e1: "extBase + num_ser_amps_det (fp s) \<le> numamps_x (fp s) * numamps_y (fp s)"
    and l0: "0 \<le> line" and l1: "line < int (length rows)"
    and fit: "num_ser_amps_det (fp s) * dstAmpX s m \<le> int (length (rows ! nat line))"
  shows "\<exists>t'. copy_line s m extBase line (Grid rows, srcLine) = (None, t')"
proof -
  define d where "d = dstAmpX s m"
  define ns where "ns = num_ser_amps_det (fp s)"
  define xs where "xs = py_range extBase (extBase + ns)"
  define I where "I = (\<lambda>k (st :: ndarray \<times> int).
     snd st = int k * d \<and>
     (\<exists>rows1. fst st = Grid rows1 \<and> length rows1 = length rows \<and>
        length (rows1 ! nat line) = length (rows ! nat line)))"
  have vg: "valid_geometry s" and fl: "\<forall>f \<in> set (amp_cfg (fp s)). f = 0 \<or> f = 1 \<or> f = 2 \<or> f = 3"
    using vi by (auto simp: valid_image_def list_all_iff)
  have d0: "0 \<le> d" using valid_geometry_nonneg(1) [OF vg] by (simp add: m d_def)
  have len: "length xs = nat ns" by (simp add: xs_def length_py_range)
  have i0: "I 0 (Grid rows, 0)" by (simp add: I_def)
  have step: "\<exists>t'. copy_ext s m line srcLine (xs ! k) t = (None, t') \<and> I (Suc k) t'"
    if k: "k < length xs" and ik: "I k t" for k t
  proof -
    obtain rows1 where t: "t = (Grid rows1, int k * d)" and l1': "length rows1 = length rows"
      and lr: "length (rows1 ! nat line) = length (rows ! nat line)"
      using ik by (cases t) (auto simp: I_def)
    have xk: "xs ! k = extBase + int k" using k len by (simp add: xs_def nth_py_range)
    have c0: "0 \<le> extBase + int k" using e0 by simp
    have c1: "extBase + int k < numamps_x (fp s) * numamps_y (fp s)"
      using e1 k len by (simp add: ns_def)
    have kd: "0 \<le> int k * d" using d0 by simp
    have "int (Suc k) \<le> ns" using k len by simp
    then have "int (Suc k) * d \<le> ns * d" using d0 by (intro mult_right_mono) simp_all
    then have fit1: "int k * d + dstAmpX s m \<le> int (length (rows1 ! nat line))"
      using fit lr by (simp add: ns_def d_def algebra_simps)
    have l1'': "line < int (length rows1)" using l1 l1' by simp
    from copy_ext_total [OF vi wi m lk c0 c1 l0 l1'' kd fit1]
    obtain t' where b: "copy_ext s m line srcLine (extBase + int k) (Grid rows1, int k * d) = (None, t')"
      by blast
    obtain b1 ls1 where t': "t' = (b1, ls1)" by (cases t')
    from copy_ext_Grid [OF b [unfolded t'] fl]
    obtain v l row' where l: "norm_index (length rows1) line = Inr l"
      and w: "setitem_slice (rows1 ! l) (int k * d) (int k * d + dstAmpX s m) v = Inr row'"
      and b1: "b1 = Grid (rows1[l := row'])" and ls1: "ls1 = int k * d + dstAmpX s m"
      by blast
    have ll: "l = nat line" and lt: "nat line < length rows1"
      using norm_index_inrange [OF l l0] norm_index_lt [OF l] by auto
    have "length row' = length (rows1 ! nat line)" using setitem_slice_length [OF w] by (simp add: ll)
    then have "I (Suc k) t'"
      using l1' lr lt by (simp add: I_def t' b1 ls1 ll d_def algebra_simps)
    then show ?thesis using b by (auto simp: t xk)
  qed
  have "\<exists>st. py_for xs (copy_ext s m line srcLine) (Grid rows, 0) = (None, st) \<and> I (length xs) st"
    by (rule py_for_total [where I = I and body = "copy_ext s m line srcLine", OF i0 step])
  then obtain st where "py_for xs (copy_ext s m line srcLine) (Grid rows, 0) = (None, st)" by blast
  then show ?thesis by (cases st) (simp add: copy_line_def xs_def ns_def)
qed

lemma copy_group_total:
  assumes vi: "valid_image s" and wi: "well_indexed s" and m: "m = margins_of trm s"
    and mr: "mirror_rows_ok trm s"
    and p0: "0 \<le> p" and p1: "p < num_par_amps_det (fp s)"
    and rs: "(p + 1) * dstAmpY s m \<le> int (length rows)"
    and fit: "\<forall>l<length rows. num_ser_amps_det (fp s) * dstAmpX s m \<le> int (length (rows ! l))"
  shows "\<exists>b'. copy_group s m p (Grid rows) = (None, b')"
proof -
  define dy where "dy = dstAmpY s m"
  define ns where "ns = num_ser_amps_det (fp s)"
  define base where "base = nat p * nat dy"
  define xs where "xs = py_range (p * dy) (p * dy + dy)"
  define I where "I = (\<lambda>k (st :: ndarray \<times> int).
     snd st = prescan2 m + int k \<and>
     (\<exists>rows1. fst st = Grid rows1 \<and> length rows1 = length rows \<and>
        (\<forall>l. length (rows1 ! l) = length (rows ! l))))"
  have vg: "valid_geometry s" and fl: "\<forall>f \<in> set (amp_cfg (fp s)). f = 0 \<or> f = 1 \<or> f = 2 \<or> f = 3"
    using vi by (auto simp: valid_image_def list_all_iff)
  have d0: "0 \<le> dstAmpX s m" and y0: "0 \<le> dy"
    using valid_geometry_nonneg(1,2) [OF vg] by (simp_all add: m dy_def)
  have ser: "num_ser_amps_det (fp s) = numamps_x (fp s)" and par: "num_par_amps_det (fp s) = numamps_y (fp s)"
    and nx0: "0 \<le> numamps_x (fp s)"
    using vg by (auto simp: valid_geometry_def)
  have len: "length xs = nat dy" by (simp add: xs_def length_py_range)
  have ib: "int base = p * dy" using p0 y0 by (simp add: base_def)
  have e0: "0 \<le> p * ns" using p0 nx0 by (simp add: ns_def ser)
  have "(p + 1) * numamps_x (fp s) \<le> numamps_y (fp s) * numamps_x (fp s)"
    using p1 nx0 by (intro mult_right_mono) (simp_all add: par)
  then have e1: "p * ns + num_ser_amps_det (fp s) \<le> numamps_x (fp s) * numamps_y (fp s)"
    by (simp add: ns_def ser algebra_simps)
  have i0: "I 0 (Grid rows, prescan2 m)" by (simp add: I_def)
  have step: "\<exists>t'. copy_line s m (p * ns) (xs ! k) t = (None, t') \<and> I (Suc k) t'"
    if k: "k < length xs" and ik: "I k t" for k t
  proof -
    obtain rows1 where t: "t = (Grid rows1, prescan2 m + int k)" and l1: "length rows1 = length rows"
      and lens: "\<forall>l. length (rows1 ! l) = length (rows ! l)"
      using ik by (cases t) (auto simp: I_def)
    have xk: "xs ! k = p * dy + int k" using k len by (simp add: xs_def nth_py_range)
    have line0: "0 \<le> p * dy + int k" using p0 y0 by simp
    have nl: "nat (p * dy + int k) = base + k" using ib by (simp add: nat_add_distrib)
    have "int (base + k) < p * dy + dy" using k len ib by simp
    then have inr: "base + k < length rows" using rs by (simp add: dy_def algebra_simps)
    have line1: "p * dy + int k < int (length rows1)" using inr ib l1 by simp
    have fit1: "num_ser_amps_det (fp s) * dstAmpX s m \<le> int (length (rows1 ! nat (p * dy + int k)))"
      using fit inr lens by (simp add: nl)
    have lk: "line_ok s m (prescan2 m + int k)"
      using k len by (intro line_ok_valid [OF vg m mr]) (simp add: dy_def)
    from copy_line_total [OF vi wi m lk e0 e1 line0 line1 fit1]
    obtain t' where b: "copy_line s m (p * ns) (p * dy + int k) (Grid rows1, prescan2 m + int k) = (None, t')"
      by blast
    obtain b1 sl1 where t': "t' = (b1, sl1)" by (cases t')
    from copy_line_Grid [OF b [unfolded t'] fl d0 line0 fit1]
    obtain rows2 where b1: "b1 = Grid rows2" and sl1: "sl1 = prescan2 m + int k + 1"
      and l2: "length rows2 = length rows1"
      and oth2: "\<forall>l'. l' \<noteq> base + k \<longrightarrow> rows2 ! l' = rows1 ! l'"
      and lr2: "length (rows2 ! (base + k)) = length (rows1 ! (base + k))"
      by (auto simp: nl)
    have lens2: "\<forall>l. length (rows2 ! l) = length (rows ! l)"
      using lens oth2 lr2 by metis
    have "I (Suc k) t'" unfolding I_def t' b1 sl1 using l1 l2 lens2 by simp
    then show ?thesis using b by (auto simp: t xk)
  qed
  have "\<exists>st. py_for xs (copy_line s m (p * ns)) (Grid rows, prescan2 m) = (None, st) \<and> I (length xs) st"
    by (rule py_for_total [where I = I and body = "copy_line s m (p * ns)", OF i0 step])
  then obtain st where "py_for xs (copy_line s m (p * ns)) (Grid rows, prescan2 m) = (None, st)" by blast
  then show ?thesis by (cases st) (simp add: copy_group_def Let_def xs_def ns_def dy_def)
qed

lemma copy_all_total:
  assumes vi: "valid_image s" and wi: "well_indexed s" and m: "m = margins_of trm s"
    and mr: "mirror_rows_ok trm s"
    and rs: "num_par_amps_det (fp s) * dstAmpY s m \<le> int (length rows)"
    and fit: "\<forall>l<length rows. num_ser_amps_det (fp s) * dstAmpX s m \<le> int (length (rows ! l))"
  shows "\<exists>b'. copy_all s m (Grid rows) = (None, b')"
proof -
  define dy where "dy = dstAmpY s m"
  define np where "np = num_par_amps_det (fp s)"
  define xs where "xs = py_range 0 np"
  define I where "I = (\<lambda>(p::nat) (b :: ndarray).
     (\<exists>rows1. b = Grid rows1 \<and> length rows1 = length rows \<and>
        (\<forall>l. length (rows1 ! l) = length (rows ! l))))"
  have vg: "valid_geometry s" and fl: "\<forall>f \<in> set (amp_cfg (fp s)). f = 0 \<or> f = 1 \<or> f = 2 \<or> f = 3"
    using vi by (auto simp: valid_image_def list_all_iff)
  have d0: "0 \<le> dstAmpX s m" and y0: "0 \<le> dstAmpY s m"
    using valid_geometry_nonneg(1,2) [OF vg] by (simp_all add: m)
  have len: "length xs = nat np" by (simp add: xs_def length_py_range)
  have i0: "I 0 (Grid rows)" by (simp add: I_def)
  have step: "\<exists>t'. copy_group s m (xs ! p) t = (None, t') \<and> I (Suc p) t'"
    if p: "p < length xs" and ip: "I p t" for p t
  proof -
    obtain rows1 where t: "t = Grid rows1" and l1: "length rows1 = length rows"
      and lens: "\<forall>l. length (rows1 ! l) = length (rows ! l)"
      using ip by (auto simp: I_def)
    have xp: "xs ! p = int p" using p len by (simp add: xs_def nth_py_range)
    have p1: "int p < num_par_amps_det (fp s)" using p len by (simp add: np_def)
    have "int (Suc p) \<le> np" using p len by simp
    then have "int (Suc p) * dstAmpY s m \<le> np * dstAmpY s m" using y0 by (intro mult_right_mono) simp_all
    then have rs1: "(int p + 1) * dstAmpY s m \<le> int (length rows1)"
      using rs l1 by (simp add: np_def algebra_simps)
    have fit1: "\<forall>l<length rows1. num_ser_amps_det (fp s) * dstAmpX s m \<le> int (length (rows1 ! l))"
      using fit lens l1 by simp
    from copy_group_total [OF vi wi m mr _ p1 rs1 fit1]
    obtain t' where b: "copy_group s m (int p) (Grid rows1) = (None, t')" by auto
    from copy_group_Grid [OF b fl d0 y0 _ rs1 fit1]
    obtain rows2 where t': "t' = Grid rows2" and l2: "length rows2 = length rows1"
      and lens2: "\<forall>l. length (rows2 ! l) = length (rows1 ! l)"
      by auto
    have "I (Suc p) t'" unfolding I_def t' using l1 l2 lens lens2 by simp
    then show ?thesis using b by (auto simp: t xp)
  qed
  have "\<exists>b'. py_for xs (copy_group s m) (Grid rows) = (None, b') \<and> I (length xs) b'"
    by (rule py_for_total [where I = I and body = "copy_group s m", OF i0 step])
  then obtain b' where "py_for xs (copy_group s m) (Grid rows) = (None, b')" by blast
  then show ?thesis by (simp add: copy_all_def xs_def np_def)
qed


lemma numpy_resize_ok:
  assumes "0 \<le> n"
  shows "\<exists>xs. numpy_resize b n = Inr (Flat xs) \<and> length xs = nat n"
proof (cases "ravel b = []")
  case True
  then show ?thesis using assms by (simp add: numpy_resize_def)
next
  case False
  then have "1 \<le> length (ravel b)" by (cases "ravel b") auto
  then have "nat n * 1 \<le> nat n * length (ravel b)" by (rule mult_le_mono2)
  then have "nat n \<le> length (concat (replicate (nat n) (ravel b)))"
    by (simp add: length_concat sum_list_replicate)
  then show ?thesis using assms False by (simp add: numpy_resize_def)
qed

lemma reshape_ok:
  assumes "0 \<le> r" and "0 \<le> c" and "length (ravel b) = nat r * nat c"
  shows "\<exists>b'. reshape b r c = Inr b'"
  using assms by (simp add: reshape_def Let_def)

lemma resize_reshape_ok:
  assumes "0 \<le> sx" and "0 \<le> sy"
  shows "\<exists>xs b'. numpy_resize b (sx * sy) = Inr (Flat xs) \<and> reshape (Flat xs) sy sx = Inr b'"
proof -
  have n: "0 \<le> sx * sy" using assms by simp
  from numpy_resize_ok [OF n, of b]
  obtain xs where r: "numpy_resize b (sx * sy) = Inr (Flat xs)" and l: "length xs = nat (sx * sy)"
    by blast
  have "length (ravel (Flat xs)) = nat sy * nat sx"
    using l assms by (simp add: nat_mult_distrib mult.commute)
  from reshape_ok [OF assms(2,1) this] r show ?thesis by blast
qed

lemma size_buffer_returns:
  assumes vg: "valid_geometry s2"
  shows "\<exists>s3. size_buffer trm s2 = Returned s3"
proof (cases "trm = 1")
  case True
  let ?sx = "size_x s2 - numamps_x (fp s2) * numcols_overscan (fp s2)
               - numamps_x (fp s2) * numcols_underscan (fp s2)"
  let ?sy = "size_y s2 - numamps_y (fp s2) * numrows_overscan (fp s2)
               - numamps_y (fp s2) * numrows_underscan (fp s2)"
  have "?sx = numamps_x (fp s2) * (numcols_amp (fp s2) - numcols_underscan (fp s2) - numcols_overscan (fp s2))"
    and "?sy = numamps_y (fp s2) * (numrows_amp (fp s2) - numrows_underscan (fp s2) - numrows_overscan (fp s2))"
    using vg by (simp_all add: valid_geometry_def algebra_simps)
  moreover have "0 \<le> numamps_x (fp s2) * (numcols_amp (fp s2) - numcols_underscan (fp s2) - numcols_overscan (fp s2))"
    and "0 \<le> numamps_y (fp s2) * (numrows_amp (fp s2) - numrows_underscan (fp s2) - numrows_overscan (fp s2))"
    using vg by (simp_all add: valid_geometry_def)
  ultimately have nn: "0 \<le> ?sx" "0 \<le> ?sy" by simp_all
  from resize_reshape_ok [OF nn, of "buffer s2"]
  obtain xs b' where "numpy_resize (buffer s2) (?sx * ?sy) = Inr (Flat xs)"
    and "reshape (Flat xs) ?sy ?sx = Inr b'" by blast
  then show ?thesis using True by (simp add: size_buffer_def Let_def)
next
  case False
  have nn: "0 \<le> size_x s2" "0 \<le> size_y s2"
    using vg by (auto simp: valid_geometry_def)
  from resize_reshape_ok [OF nn, of "buffer s2"]
  obtain xs b' where "numpy_resize (buffer s2) (size_x s2 * size_y s2) = Inr (Flat xs)"
    and "reshape (Flat xs) (size_y s2) (size_x s2) = Inr b'" by blast
  then show ?thesis using False by (simp add: size_buffer_def Let_def)
qed

lemma assemble_returns:
  assumes vi: "valid_image s" and wi: "well_indexed s" and mr: "mirror_rows_ok trm s"
    and v: "is_valid s \<noteq> 0"
  shows "returned (assemble mem trm s)"
proof (cases "assembled s \<noteq> 0")
  case True
  then show ?thesis using v by (simp add: assemble_def)
next
  case False
  define m where "m = margins_of trm s"
  let ?s1 = "s\<lparr>asmsize := (numcols_image (fp s), numrows_image (fp s))\<rparr>"
  have vg: "valid_geometry s" and fl: "\<forall>f \<in> set (amp_cfg (fp s)). f = 0 \<or> f = 1 \<or> f = 2 \<or> f = 3"
    and ff: "from_file s = 1 \<longrightarrow> has_shape (buffer s) (nat (size_y s)) (nat (size_x s))"
    using vi by (auto simp: valid_image_def list_all_iff)
  have ser: "num_ser_amps_det (fp s) = numamps_x (fp s)" and par: "num_par_amps_det (fp s) = numamps_y (fp s)"
    and sz0: "0 \<le> size_x s" "0 \<le> size_y s"
    using vg by (auto simp: valid_geometry_def)
  obtain s2 where a: "alloc_buffer mem ?s1 = Inr s2"
    using sz0 by (cases "from_file s = 1") (auto simp: alloc_buffer_def numpy_empty_def)
  note e2 = alloc_buffer_frame [OF a]
  have f2: "fp s2 = fp s" "size_x s2 = size_x s" "size_y s2 = size_y s" "data s2 = data s"
    "offsets s2 = offsets s" "scales s2 = scales s"
    using arg_cong [OF e2, of fp] arg_cong [OF e2, of size_x] arg_cong [OF e2, of size_y]
      arg_cong [OF e2, of data] arg_cong [OF e2, of offsets] arg_cong [OF e2, of scales]
    by simp_all
  have vg2: "valid_geometry s2" using vg valid_geometry_cong [of s2 s] f2 by simp
  have sh2: "has_shape (buffer s2) (nat (size_y s2)) (nat (size_x s2))"
  proof (cases "from_file s = 1")
    case True
    then have "s2 = ?s1" using a by (simp add: alloc_buffer_def)
    then show ?thesis using ff True by simp
  next
    case False
    then obtain b0 where ne: "numpy_empty mem (size_y s) (size_x s) = Inr b0" and "s2 = ?s1\<lparr>buffer := b0\<rparr>"
      using a by (auto simp: alloc_buffer_def split: sum.splits)
    then show ?thesis using numpy_empty_shape [OF ne] by simp
  qed
  obtain s3 where sz: "size_buffer trm s2 = Returned s3"
    using size_buffer_returns [OF vg2] by blast
  have m2: "margins_of trm s2 = m" by (simp add: margins_of_def m_def f2)
  have d2: "dstAmpX s2 m = dstAmpX s m" "dstAmpY s2 m = dstAmpY s m"
    by (simp_all add: dstAmpX_def dstAmpY_def f2)
  note shp = size_buffer_shape [OF sz vg2 sh2, unfolded m2 d2 f2]
  note e3 = size_buffer_frame [OF sz]
  have f3: "fp s3 = fp s" "data s3 = data s" "offsets s3 = offsets s" "scales s3 = scales s"
    using arg_cong [OF e3, of fp] arg_cong [OF e3, of data] arg_cong [OF e3, of offsets]
      arg_cong [OF e3, of scales] f2
    by simp_all
  have m3: "margins_of trm s3 = m" by (simp add: margins_of_def m_def f3)
  define s4 where "s4 = set_line_attrs m s3"
  have f4: "fp s4 = fp s" "data s4 = data s" "offsets s4 = offsets s" "scales s4 = scales s"
    "asmsize s4 = asmsize s3" "buffer s4 = buffer s3"
    by (simp_all add: s4_def set_line_attrs_def f3)
  have nn: "0 \<le> dstAmpX s m" "0 \<le> dstAmpY s m" "0 \<le> numamps_x (fp s) * dstAmpX s m"
    "0 \<le> numamps_y (fp s) * dstAmpY s m"
    using valid_geometry_nonneg [OF vg, of trm] by (simp_all add: m_def)
  from shp(2) obtain rows3 where b3: "buffer s3 = Grid rows3"
    and l3: "length rows3 = nat (numamps_y (fp s) * dstAmpY s m)"
    and r3: "\<forall>row \<in> set rows3. length row = nat (numamps_x (fp s) * dstAmpX s m)"
    by (auto simp: has_shape_Grid)
  have cc: "copy_all s4 m = copy_all s m" by (rule copy_all_cong) (simp_all add: f4)
  have rs: "num_par_amps_det (fp s) * dstAmpY s m \<le> int (length rows3)"
    using nn by (simp add: par l3)
  have fit: "\<forall>l<length rows3. num_ser_amps_det (fp s) * dstAmpX s m \<le> int (length (rows3 ! l))"
    using nn r3 by (simp add: ser)
  from copy_all_total [OF vi wi m_def mr rs fit]
  obtain b where ca: "copy_all s m (Grid rows3) = (None, b)" by blast
  from copy_all_Grid [OF ca fl nn(1,2) rs fit]
  obtain rows' where b: "b = Grid rows'" and l': "length rows' = length rows3"
    and lens: "\<forall>l. length (rows' ! l) = length (rows3 ! l)"
    by blast
  have shb: "has_shape (Grid rows') (nat (numamps_y (fp s) * dstAmpY s m)) (nat (numamps_x (fp s) * dstAmpX s m))"
    using l' l3 lens r3 nth_mem [of _ rows3] by (auto simp: has_shape_Grid in_set_conv_nth)
  have as4: "asmsize s4 = (numamps_x (fp s) * dstAmpX s m, numamps_y (fp s) * dstAmpY s m)"
    using shp(1) by (simp add: f4)
  have rsh: "reshape (Grid rows') (numamps_y (fp s) * dstAmpY s m) (numamps_x (fp s) * dstAmpX s m)
               = Inr (Grid rows')"
    by (rule reshape_same [OF shb nn(4) nn(3)])
  have fin: "returned (finish trm (s4\<lparr>buffer := Grid rows'\<rparr>))"
    by (simp add: finish_def as4 rsh Let_def)
  have "assemble mem trm s = finish trm (s4\<lparr>buffer := Grid rows'\<rparr>)"
    using v False a sz ca by (simp add: assemble_def Let_def m3 s4_def [symmetric] f4 b3 cc b)
  then show ?thesis using fin by simp
qed

lemma example_returns:
  "well_indexed example_image \<and> mirror_rows_ok 1 example_image \<and>
   returned (assemble mem 1 example_image)"
proof -
  have vi: "valid_image example_image" by code_simp
  have wi: "well_indexed example_image" by code_simp
  have mr: "mirror_rows_ok 1 example_image" by code_simp
  have v: "is_valid example_image \<noteq> 0" by code_simp
  show ?thesis using assemble_returns [OF vi wi mr v] wi mr by simp
qed

section \<open>The example image, evaluated\<close>

lemma example_assemble_trimmed: "assemble (\<lambda>_. 0) 1 example_image = Returned example_trimmed"
  by code_simp

lemma example_assemble_untrimmed: "assemble (\<lambda>_. 0) 0 example_image = Returned example_untrimmed"
  by code_simp

lemma example_valid: "valid_image example_image"
  by code_simp

section \<open>The flags\<close>

lemma assemble_flags:
  assumes ret: "assemble mem trm s = Returned s'" and fresh: "assembled s = 0"
  shows "assembled s' = 1 \<and> trimmed s' = (if trm = 1 then 1 else trimmed s)"
proof -
  let ?s1 = "s\<lparr>asmsize := (numcols_image (fp s), numrows_image (fp s))\<rparr>"
  from ret fresh obtain s2 s3 b where
    a: "alloc_buffer mem ?s1 = Inr s2" and
    sz: "size_buffer trm s2 = Returned s3" and
    f: "finish trm (set_line_attrs (margins_of trm s3) s3\<lparr>buffer := b\<rparr>) = Returned s'"
    by (rule assemble_run)
  have "trimmed s2 = trimmed s" using arg_cong [OF alloc_buffer_frame [OF a], of trimmed] by simp
  moreover have "trimmed s3 = trimmed s2" using arg_cong [OF size_buffer_frame [OF sz], of trimmed] by simp
  moreover have "assembled s' = 1 \<and> trimmed s' = (if trm = 1 then 1 else trimmed s3)"
    using arg_cong [OF finish_frame [OF f], of assembled] arg_cong [OF finish_frame [OF f], of trimmed]
    by (simp add: set_line_attrs_def)
  ultimately show ?thesis by simp
qed

lemma size_buffer_is_valid: "is_valid (final_state (size_buffer trm s)) = is_valid s"
  by (auto simp: size_buffer_def Let_def split: sum.splits)

lemma finish_is_valid: "is_valid (final_state (finish trm s)) = is_valid s"
  by (auto simp: finish_def Let_def split: sum.splits)

lemma assemble_is_valid: "is_valid (final_state (assemble mem trm s)) = is_valid s"
proof (cases "is_valid s = 0 \<or> assembled s \<noteq> 0")
  case True
  then show ?thesis by (auto simp: assemble_def)
next
  case False
  let ?s1 = "s\<lparr>asmsize := (numcols_image (fp s), numrows_image (fp s))\<rparr>"
  show ?thesis
  proof (cases "alloc_buffer mem ?s1")
    case (Inl e)
    then show ?thesis using False by (simp add: assemble_def)
  next
    case (Inr s2)
    have v2: "is_valid s2 = is_valid s" using arg_cong [OF alloc_buffer_frame [OF Inr], of is_valid] by simp
    show ?thesis
    proof (cases "size_buffer trm s2")
      case (Raised e s3)
      then show ?thesis using False Inr v2 size_buffer_is_valid [of trm s2] by (simp add: assemble_def)
    next
      case (Returned s3)
      have v3: "is_valid s3 = is_valid s" using v2 size_buffer_is_valid [of trm s2] Returned by simp
      let ?s4 = "set_line_attrs (margins_of trm s3) s3"
      obtain r b where c: "copy_all ?s4 (margins_of trm s3) (buffer ?s4) = (r, b)"
        by (cases "copy_all ?s4 (margins_of trm s3) (buffer ?s4)")
      have v4: "is_valid (?s4\<lparr>buffer := b\<rparr>) = is_valid s" using v3 by (simp add: set_line_attrs_def)
      show ?thesis
        using False Inr Returned c v4 finish_is_valid [of trm "?s4\<lparr>buffer := b\<rparr>"]
        by (cases r) (simp_all add: assemble_def Let_def)
    qed
  qed
qed

lemma flags_consistent_kept:
  "flags_consistent (init_image f)"
  "flags_consistent (final_state (read_fits_file mem d s))"
  "flags_consistent s \<Longrightarrow> flags_consistent (final_state (assemble mem trm s))"
  "flags_consistent s \<Longrightarrow> flags_consistent (final_state (set_scaling gains offs s))"
proof -
  show "flags_consistent (init_image f)" by (simp add: flags_consistent_def init_image_def)
  show "flags_consistent (final_state (read_fits_file mem d s))"
    by (simp add: flags_consistent_def read_fits_file_def Let_def split: sum.splits)
  show "flags_consistent (final_state (assemble mem trm s))" if "flags_consistent s"
  proof (cases "is_valid s = 0")
    case True
    then show ?thesis using that by (simp add: assemble_def)
  next
    case False
    then show ?thesis using assemble_is_valid [of mem trm s] by (simp add: flags_consistent_def)
  qed
  show "flags_consistent (final_state (set_scaling gains offs s))" if "flags_consistent s"
    using that set_scaling_frame [of gains offs s] by (simp add: flags_consistent_def)
qed

section \<open>The loop of \<open>set_scaling\<close>\<close>

lemma py_for_snoc_None:
  "py_for (xs @ [x]) body s = (None, t) \<longleftrightarrow>
     (\<exists>t1. py_for xs body s = (None, t1) \<and> body x t1 = (None, t))"
proof -
  obtain r1 t1 where a: "py_for xs body s = (r1, t1)" by (cases "py_for xs body s")
  obtain r2 t2 where b: "body x t1 = (r2, t2)" by (cases "body x t1")
  show ?thesis
    using a b by (cases r1; cases r2) (auto simp: py_for_append)
qed

lemma py_range_Suc: "py_range 0 (int (Suc L)) = py_range 0 (int L) @ [int L]"
proof -
  have "nat (int (Suc L) - 0) = Suc L" and "nat (int L - 0) = L" by simp_all
  then show ?thesis unfolding py_range_def by simp
qed

lemma update_take_replicate:
  assumes "k < length g" and "k < N"
  shows "(take k g @ replicate (N - k) x)[k := g ! k] = take (Suc k) g @ replicate (N - Suc k) x"
proof -
  have l: "length (take k g) = k" using assms(1) by simp
  obtain M where M: "N - k = Suc M" using assms(2) by (cases "N - k") auto
  then have M': "N - Suc k = M" by simp
  have "(take k g @ replicate (N - k) x)[k := g ! k] = take k g @ (replicate (N - k) x)[0 := g ! k]"
    using l by (simp add: list_update_append)
  also have "\<dots> = take k g @ g ! k # replicate M x" by (simp add: M)
  also have "\<dots> = take (Suc k) g @ replicate (N - Suc k) x"
    using assms(1) by (simp add: take_Suc_conv_app_nth M')
  finally show ?thesis .
qed

lemma set_chan_step:
  assumes "length (scales t) = N" and "length (offsets t) = N"
  shows "set_chan g v (int k) t = (None, t') \<longleftrightarrow>
           k < length g \<and> k < length v \<and> k < N \<and>
           t' = t\<lparr>scales := (scales t)[k := g ! k], offsets := (offsets t)[k := v ! k]\<rparr>"
  using assms
  by (auto simp: set_chan_def py_index_def norm_index_def Let_def split: sum.splits if_splits)

lemma set_scaling_loop:
  fixes s3 :: image and N :: nat
  assumes s3: "scales s3 = replicate N 1" "offsets s3 = replicate N 0"
  shows "py_for (py_range 0 (int L)) (set_chan g v) s3 = (None, t) \<longleftrightarrow>
           L \<le> length g \<and> L \<le> length v \<and> L \<le> N \<and>
           t = s3\<lparr>scales := take L g @ replicate (N - L) 1,
                  offsets := take L v @ replicate (N - L) 0\<rparr>"
proof (induction L arbitrary: t)
  case 0
  have "s3 = s3\<lparr>scales := replicate N 1, offsets := replicate N 0\<rparr>"
    using s3 by (cases s3) simp
  then show ?case by (auto simp: py_range_def)
next
  case (Suc L)
  let ?t1 = "s3\<lparr>scales := take L g @ replicate (N - L) 1,
                 offsets := take L v @ replicate (N - L) 0\<rparr>"
  have step: "set_chan g v (int L) ?t1 = (None, t) \<longleftrightarrow>
           L < length g \<and> L < length v \<and> L < N \<and>
           t = ?t1\<lparr>scales := (scales ?t1)[L := g ! L], offsets := (offsets ?t1)[L := v ! L]\<rparr>"
    if "L \<le> length g" "L \<le> length v" "L \<le> N"
    using that by (intro set_chan_step) simp_all
  show ?case
  proof
    assume "py_for (py_range 0 (int (Suc L))) (set_chan g v) s3 = (None, t)"
    then obtain t1 where p: "py_for (py_range 0 (int L)) (set_chan g v) s3 = (None, t1)"
      and b: "set_chan g v (int L) t1 = (None, t)"
      unfolding py_range_Suc py_for_snoc_None by blast
    from p have l: "L \<le> length g" "L \<le> length v" "L \<le> N" and t1: "t1 = ?t1"
      using Suc.IH by auto
    from b have c: "L < length g" "L < length v" "L < N"
      and t: "t = ?t1\<lparr>scales := (scales ?t1)[L := g ! L], offsets := (offsets ?t1)[L := v ! L]\<rparr>"
      using step [OF l] by (auto simp: t1)
    have "t = s3\<lparr>scales := take (Suc L) g @ replicate (N - Suc L) 1,
                  offsets := take (Suc L) v @ replicate (N - Suc L) 0\<rparr>"
      using c by (simp add: t update_take_replicate)
    then show "Suc L \<le> length g \<and> Suc L \<le> length v \<and> Suc L \<le> N \<and>
           t = s3\<lparr>scales := take (Suc L) g @ replicate (N - Suc L) 1,
                  offsets := take (Suc L) v @ replicate (N - Suc L) 0\<rparr>"
      using c by simp
  next
    assume r: "Suc L \<le> length g \<and> Suc L \<le> length v \<and> Suc L \<le> N \<and>
           t = s3\<lparr>scales := take (Suc L) g @ replicate (N - Suc L) 1,
                  offsets := take (Suc L) v @ replicate (N - Suc L) 0\<rparr>"
    then have c: "L < length g" "L < length v" "L < N" by auto
    then have l: "L \<le> length g" "L \<le> length v" "L \<le> N" by auto
    have p: "py_for (py_range 0 (int L)) (set_chan g v) s3 = (None, ?t1)"
      using Suc.IH [of ?t1] l by simp
    have "t = ?t1\<lparr>scales := (scales ?t1)[L := g ! L], offsets := (offsets ?t1)[L := v ! L]\<rparr>"
      using r c by (simp add: update_take_replicate)
    then have "set_chan g v (int L) ?t1 = (None, t)" using step [OF l] c by simp
    then show "py_for (py_range 0 (int (Suc L))) (set_chan g v) s3 = (None, t)"
      using p unfolding py_range_Suc py_for_snoc_None by blast
  qed
qed

section \<open>The claims\<close>

text \<open>
  C5. On an image that is valid and assembled, \<open>assemble\<close>, with any \<open>trim\<close> argument,
  returns at once and leaves the image exactly as it is. An image on which \<open>assemble\<close> has
  returned is such an image, and stays one when the calibration arrays are replaced, by
  assignment or by \<open>set_scaling\<close> (whether that returned or raised); \<open>set_scaling\<close> itself
  leaves the buffer, the assembled size and the flags alone.
\<close>

theorem assemble_idempotent:
  "(is_valid s \<noteq> 0 \<and> assembled s \<noteq> 0 \<longrightarrow> assemble mem trm s = Returned s) \<and>
   (assemble mem0 trm0 s0 = Returned s \<longrightarrow>
      assemble mem trm s = Returned s \<and>
      assemble mem trm (s\<lparr>scales := sc, offsets := off\<rparr>) = Returned (s\<lparr>scales := sc, offsets := off\<rparr>) \<and>
      (\<forall>s2. final_state (set_scaling gains offs s) = s2 \<longrightarrow>
         assemble mem trm s2 = Returned s2 \<and> buffer s2 = buffer s \<and>
         asmsize s2 = asmsize s \<and> assembled s2 = assembled s \<and> trimmed s2 = trimmed s))"
proof -
  have a: "assemble mem trm u = Returned u" if "is_valid u \<noteq> 0 \<and> assembled u \<noteq> 0" for u
    using that by (simp add: assemble_def)
  have b: "assemble mem trm s = Returned s \<and>
      assemble mem trm (s\<lparr>scales := sc, offsets := off\<rparr>) = Returned (s\<lparr>scales := sc, offsets := off\<rparr>) \<and>
      (\<forall>s2. final_state (set_scaling gains offs s) = s2 \<longrightarrow>
         assemble mem trm s2 = Returned s2 \<and> buffer s2 = buffer s \<and>
         asmsize s2 = asmsize s \<and> assembled s2 = assembled s \<and> trimmed s2 = trimmed s)"
    if r: "assemble mem0 trm0 s0 = Returned s"
  proof -
    have fl: "is_valid s \<noteq> 0 \<and> assembled s \<noteq> 0" using r by (rule assemble_returned_flags)
    have 1: "assemble mem trm s = Returned s" using a [OF fl] .
    have 2: "assemble mem trm (s\<lparr>scales := sc, offsets := off\<rparr>) = Returned (s\<lparr>scales := sc, offsets := off\<rparr>)"
      using fl by (intro a) simp
    have 3: "assemble mem trm s2 = Returned s2 \<and> buffer s2 = buffer s \<and>
         asmsize s2 = asmsize s \<and> assembled s2 = assembled s \<and> trimmed s2 = trimmed s"
      if "final_state (set_scaling gains offs s) = s2" for s2
      using set_scaling_frame [of gains offs s] that fl a [of s2] by simp
    show ?thesis using 1 2 3 by blast
  qed
  show ?thesis using a b by blast
qed

theorem assemble_idempotent_witness:
  "assemble (\<lambda>_. 0) 1 example_image = Returned example_trimmed \<and>
   assemble (\<lambda>_. 7) 0 example_trimmed = Returned example_trimmed \<and>
   assemble (\<lambda>_. 7) 0 (example_trimmed\<lparr>scales := [5, 5, 5, 5], offsets := [9, 9, 9, 9]\<rparr>)
     = Returned (example_trimmed\<lparr>scales := [5, 5, 5, 5], offsets := [9, 9, 9, 9]\<rparr>) \<and>
   assemble (\<lambda>_. 7) 0 (final_state (set_scaling (Some [3, 3, 3, 3]) (Some [1, 1, 1, 1]) example_trimmed))
     = Returned (final_state (set_scaling (Some [3, 3, 3, 3]) (Some [1, 1, 1, 1]) example_trimmed)) \<and>
   scales (final_state (set_scaling (Some [3, 3, 3, 3]) (Some [1, 1, 1, 1]) example_trimmed)) = [3, 3, 3, 3] \<and>
   buffer (final_state (set_scaling (Some [3, 3, 3, 3]) (Some [1, 1, 1, 1]) example_trimmed))
     = buffer example_trimmed"
proof -
  have r: "assemble (\<lambda>_. 0) 1 example_image = Returned example_trimmed" by code_simp
  have s: "scales (final_state (set_scaling (Some [3, 3, 3, 3]) (Some [1, 1, 1, 1]) example_trimmed)) = [3, 3, 3, 3]"
    by code_simp
  note w = assemble_idempotent [where s = example_trimmed and ?mem0.0 = "\<lambda>_. 0" and ?trm0.0 = 1
      and ?s0.0 = example_image and mem = "\<lambda>_. 7" and trm = 0 and sc = "[5, 5, 5, 5]"
      and off = "[9, 9, 9, 9]" and gains = "Some [3, 3, 3, 3]" and offs = "Some [1, 1, 1, 1]"]
  show ?thesis using w r s by blast
qed

text \<open>
  C6. On an image whose \<open>is_valid\<close> flag is not set, \<open>assemble\<close> raises
  \<open>AzcamError("image is not valid")\<close> as its first action and leaves every attribute as it
  was: the buffer, \<open>asmsize\<close>, \<open>assembled\<close> and \<open>trimmed\<close> in particular. Where the flags are
  consistent (an assembled image is a valid one, as every method of the class keeps it),
  \<open>assembled\<close> is unset afterwards.
\<close>

theorem assemble_not_valid:
  assumes "is_valid s = 0"
  shows "assemble mem trm s = Raised (AzcamError ''image is not valid'') s \<and>
         buffer (final_state (assemble mem trm s)) = buffer s \<and>
         asmsize (final_state (assemble mem trm s)) = asmsize s \<and>
         assembled (final_state (assemble mem trm s)) = assembled s \<and>
         trimmed (final_state (assemble mem trm s)) = trimmed s \<and>
         (flags_consistent s \<longrightarrow> assembled (final_state (assemble mem trm s)) = 0)"
  using assms by (simp add: assemble_def flags_consistent_def)

theorem assemble_not_valid_witness:
  "is_valid (init_image example_fp) = 0 \<and> flags_consistent (init_image example_fp) \<and>
   assemble (\<lambda>_. 0) 1 (init_image example_fp)
     = Raised (AzcamError ''image is not valid'') (init_image example_fp) \<and>
   assembled (final_state (assemble (\<lambda>_. 0) 1 (init_image example_fp))) = 0"
proof -
  have v: "is_valid (init_image example_fp) = 0" by (simp add: init_image_def)
  have c: "flags_consistent (init_image example_fp)" by (simp add: init_image_def flags_consistent_def)
  show ?thesis using assemble_not_valid [OF v, of "\<lambda>_. 0" 1] v c by simp
qed

text \<open>
  C9. \<open>assemble(-1)\<close>, the default argument, is the same computation as \<open>assemble(0)\<close>: it
  never reads the attribute \<open>trim\<close> (changing the attribute changes nothing but the
  attribute itself in the outcome), its margins are zero, and when it assembles, the
  assembled size is the full raw size \<open>(size_x, size_y)\<close> and \<open>trimmed\<close> keeps its value.
\<close>

theorem assemble_default_trim:
  "assemble mem (- 1) s = assemble mem 0 s \<and>
   assemble mem (- 1) (s\<lparr>trim := t\<rparr>) = map_outcome (\<lambda>u. u\<lparr>trim := t\<rparr>) (assemble mem (- 1) s) \<and>
   margins_of (- 1) s = \<lparr>prescan1 = 0, overscan1 = 0, prescan2 = 0, overscan2 = 0\<rparr> \<and>
   (\<forall>s'. assembled s = 0 \<and> assemble mem (- 1) s = Returned s' \<longrightarrow>
      asmsize s' = (size_x s, size_y s) \<and> trimmed s' = trimmed s)"
  using assemble_untrimmed_eq [of "- 1" mem s] assemble_trim_attr [where mem = mem and trm = "- 1" and s = s and t = t]
    assemble_untrimmed_size [of mem "- 1" s]
  by (simp add: margins_of_def)

theorem assemble_default_trim_witness:
  "assembled example_image = 0 \<and>
   assemble (\<lambda>_. 0) (- 1) example_image = Returned example_untrimmed \<and>
   asmsize example_untrimmed = (size_x example_image, size_y example_image) \<and>
   trim example_image = 1 \<and> trimmed example_untrimmed = 0"
proof -
  have r: "assemble (\<lambda>_. 0) (- 1) example_image = Returned example_untrimmed" by code_simp
  have a: "assembled example_image = 0" by (simp add: example_image_def)
  have "asmsize example_untrimmed = (size_x example_image, size_y example_image) \<and>
        trimmed example_untrimmed = trimmed example_image"
    using assemble_default_trim [of "\<lambda>_. 0" example_image 0] a r by blast
  then show ?thesis using a r by (simp add: example_image_def)
qed

text \<open>
  C1. After \<open>assemble\<close> has returned on a valid image that was not assembled before, take
  the parallel group \<open>p\<close>, the line \<open>k\<close> of the group, the amplifier position \<open>j\<close> in the
  group and the column \<open>c\<close> of the amplifier's segment. With \<open>x\<close> the amplifier number
  \<open>jpg_ext[p * num_ser_amps_det + j]\<close>, \<open>flip\<close>, \<open>amp\<close>, \<open>off\<close> and \<open>sc\<close> the flip code, raw
  pixels, offset and scale of amplifier \<open>x - 1\<close>: the flip code is one of 0, 1, 2, 3, and
  the assembled pixel in row \<open>p * dstAmpY + k\<close>, column \<open>j * dstAmpX + c\<close> is
  \<open>(raw - off) * sc\<close>, where \<open>raw\<close> is pixel \<open>c\<close> of the source segment the code extracts for
  that flip code, a raw value of that amplifier.
\<close>

theorem assemble_calibration:
  assumes ret: "assemble mem trm s = Returned s'" and fresh: "assembled s = 0"
    and vi: "valid_image s"
    and m: "m = margins_of trm s"
    and p: "p < nat (numamps_y (fp s))" and k: "k < nat (dstAmpY s m)"
    and j: "j < nat (numamps_x (fp s))" and c: "c < nat (dstAmpX s m)"
    and x: "py_index (jpg_ext (fp s)) (int p * numamps_x (fp s) + int j) = Inr x"
    and f: "py_index (amp_cfg (fp s)) (x - 1) = Inr flip"
    and a: "py_index (data s) (x - 1) = Inr amp"
    and off: "py_index (offsets s) (x - 1) = Inr off"
    and sc: "py_index (scales s) (x - 1) = Inr sc"
  shows "(flip = 0 \<or> flip = 1 \<or> flip = 2 \<or> flip = 3) \<and>
         buffer_row (buffer s') (p * nat (dstAmpY s m) + k) ! (j * nat (dstAmpX s m) + c)
           = (broadcast (nat (dstAmpX s m)) (source_segment s m flip amp (prescan2 m + int k)) ! c - off) * sc \<and>
         broadcast (nat (dstAmpX s m)) (source_segment s m flip amp (prescan2 m + int k)) ! c \<in> set amp"
proof -
  let ?d = "nat (dstAmpX s m)"
  let ?row = "buffer_row (buffer s') (p * nat (dstAmpY s m) + k)"
  let ?src = "source_segment s m flip amp (prescan2 m + int k)"
  note seg = assemble_segment [OF ret fresh vi m p k j x f a off sc]
  have fl: "flip = 0 \<or> flip = 1 \<or> flip = 2 \<or> flip = 3"
    using vi py_index_mem [OF f] by (auto simp: valid_image_def list_all_iff)
  have "?row ! (j * ?d + c) = take ?d (drop (j * ?d) ?row) ! c"
    using c seg(4) by simp
  also have "\<dots> = broadcast ?d (calibrate off sc ?src) ! c"
    using seg(1) by (simp add: dest_segment_def)
  also have "\<dots> = (broadcast ?d ?src ! c - off) * sc"
    using broadcast_calibrate_nth(1) [OF seg(2) c] .
  finally have v: "?row ! (j * ?d + c) = (broadcast ?d ?src ! c - off) * sc" .
  have "broadcast ?d ?src ! c \<in> set ?src" using broadcast_calibrate_nth(2) [OF seg(2) c] .
  then have "broadcast ?d ?src ! c \<in> set amp" using set_source_segment by blast
  then show ?thesis using fl v by blast
qed


theorem assemble_calibration_witness:
  "assemble (\<lambda>_. 0) 1 example_image = Returned example_trimmed \<and>
   valid_image example_image \<and>
   py_index (amp_cfg (fp example_image)) 1 = Inr 1 \<and>
   py_index (offsets example_image) 1 = Inr 1 \<and>
   py_index (scales example_image) 1 = Inr 2 \<and>
   buffer_row (buffer example_trimmed) 1 ! 2 = (25 - 1) * 2 \<and>
   (25 :: real) \<in> set [20, 21, 22, 23, 24, 25, 26, 27, 28]"
proof -
  let ?m = "margins_of 1 example_image"
  have ret: "assemble (\<lambda>_. 0) 1 example_image = Returned example_trimmed" by code_simp
  have fresh: "assembled example_image = 0" by code_simp
  have vi: "valid_image example_image" by code_simp
  have p: "(0::nat) < nat (numamps_y (fp example_image))" by code_simp
  have k: "(1::nat) < nat (dstAmpY example_image ?m)" by code_simp
  have j: "(1::nat) < nat (numamps_x (fp example_image))" by code_simp
  have c: "(0::nat) < nat (dstAmpX example_image ?m)" by code_simp
  have x: "py_index (jpg_ext (fp example_image)) (int 0 * numamps_x (fp example_image) + int 1) = Inr 2"
    by code_simp
  have f: "py_index (amp_cfg (fp example_image)) (2 - 1) = Inr 1" by code_simp
  have a: "py_index (data example_image) (2 - 1) = Inr [20, 21, 22, 23, 24, 25, 26, 27, 28]"
    by code_simp
  have off: "py_index (offsets example_image) (2 - 1) = Inr 1" by code_simp
  have sc: "py_index (scales example_image) (2 - 1) = Inr 2" by code_simp
  have e1: "0 * nat (dstAmpY example_image ?m) + 1 = (1::nat)" by code_simp
  have e2: "1 * nat (dstAmpX example_image ?m) + 0 = (2::nat)" by code_simp
  have e3: "broadcast (nat (dstAmpX example_image ?m))
              (source_segment example_image ?m 1 [20, 21, 22, 23, 24, 25, 26, 27, 28]
                 (prescan2 ?m + int 1)) ! 0 = 25"
    by code_simp
  note w = assemble_calibration [OF ret fresh vi refl p k j c x f a off sc, unfolded e1 e2 e3]
  show ?thesis using w ret vi f off sc by simp
qed

text \<open>
  C2. Under the same conditions, for an amplifier with flip code 0 the destination segment
  (row \<open>p * dstAmpY + k\<close>, columns \<open>j * dstAmpX\<close> onwards) is the calibrated segment of
  length \<open>dstAmpX\<close> that starts at column \<open>prescan1\<close> of raw row \<open>prescan2 + k\<close>; for flip
  code 1 it is the calibrated reverse of that segment. The raw row starts at \<open>prescan2\<close>
  (the underscan rows when trimming, else 0) and advances with the destination line \<open>k\<close>.
\<close>

theorem assemble_flip_0_1:
  assumes ret: "assemble mem trm s = Returned s'" and fresh: "assembled s = 0"
    and vi: "valid_image s"
    and m: "m = margins_of trm s"
    and p: "p < nat (numamps_y (fp s))" and k: "k < nat (dstAmpY s m)"
    and j: "j < nat (numamps_x (fp s))"
    and x: "py_index (jpg_ext (fp s)) (int p * numamps_x (fp s) + int j) = Inr x"
    and f: "py_index (amp_cfg (fp s)) (x - 1) = Inr flip"
    and f01: "flip = 0 \<or> flip = 1"
    and a: "py_index (data s) (x - 1) = Inr amp"
    and off: "py_index (offsets s) (x - 1) = Inr off"
    and sc: "py_index (scales s) (x - 1) = Inr sc"
  shows "dest_segment (buffer s') (p * nat (dstAmpY s m) + k) j (nat (dstAmpX s m))
           = calibrate off sc
               (if flip = 0 then trimmed_cols s m (amp_row s amp (prescan2 m + int k))
                else rev (trimmed_cols s m (amp_row s amp (prescan2 m + int k)))) \<and>
         prescan2 m = (if trm = 1 then numrows_underscan (fp s) else 0) \<and>
         prescan1 m = (if trm = 1 then numcols_underscan (fp s) else 0) \<and>
         dstAmpX s m = (if trm = 1
                        then numcols_amp (fp s) - numcols_underscan (fp s) - numcols_overscan (fp s)
                        else numcols_amp (fp s))"
proof -
  let ?r = "prescan2 m + int k"
  have vg: "valid_geometry s" using vi by (simp add: valid_image_def)
  have la: "int (length amp) = numcols_amp (fp s) * numrows_amp (fp s)"
    using vi a by (rule valid_image_amp_length)
  have r0: "0 \<le> ?r" using vg by (simp add: valid_geometry_def m margins_of_def)
  have r1: "?r < numrows_amp (fp s)"
    using k vg by (auto simp: valid_geometry_def m margins_of_def dstAmpY_def split: if_splits)
  have px: "posX s m flip ?r = ?r * numcols_amp (fp s) + prescan1 m"
    using f01 by (auto simp: posX_def)
  have sl: "py_slice amp (posX s m flip ?r) (posX s m flip ?r + dstAmpX s m)
              = trimmed_cols s m (amp_row s amp ?r)"
    unfolding px by (rule py_slice_row [OF vg m la r0 r1])
  have ln: "length (trimmed_cols s m (amp_row s amp ?r)) = nat (dstAmpX s m)"
    by (rule py_slice_row_length [OF vg m la r0 r1])
  have src: "source_segment s m flip amp ?r
               = (if flip = 0 then trimmed_cols s m (amp_row s amp ?r)
                  else rev (trimmed_cols s m (amp_row s amp ?r)))"
    using f01 by (auto simp: source_segment_def sl reversed_def)
  have "length (calibrate off sc (source_segment s m flip amp ?r)) = nat (dstAmpX s m)"
    using ln by (simp add: src calibrate_def)
  then have "dest_segment (buffer s') (p * nat (dstAmpY s m) + k) j (nat (dstAmpX s m))
               = calibrate off sc (source_segment s m flip amp ?r)"
    using assemble_segment(1) [OF ret fresh vi m p k j x f a off sc] by (simp add: broadcast_same)
  then have main: "dest_segment (buffer s') (p * nat (dstAmpY s m) + k) j (nat (dstAmpX s m))
           = calibrate off sc
               (if flip = 0 then trimmed_cols s m (amp_row s amp (prescan2 m + int k))
                else rev (trimmed_cols s m (amp_row s amp (prescan2 m + int k))))"
    by (simp only: src)
  have mg: "prescan2 m = (if trm = 1 then numrows_underscan (fp s) else 0)"
    "prescan1 m = (if trm = 1 then numcols_underscan (fp s) else 0)"
    "dstAmpX s m = (if trm = 1
                        then numcols_amp (fp s) - numcols_underscan (fp s) - numcols_overscan (fp s)
                        else numcols_amp (fp s))"
    by (simp_all add: m margins_of_def dstAmpX_def)
  show ?thesis using main mg by (intro conjI)
qed


theorem assemble_flip_0_1_witness:
  "assemble (\<lambda>_. 0) 1 example_image = Returned example_trimmed \<and>
   valid_image example_image \<and>
   py_index (amp_cfg (fp example_image)) 0 = Inr 0 \<and>
   py_index (amp_cfg (fp example_image)) 1 = Inr 1 \<and>
   dest_segment (buffer example_trimmed) 1 0 2 = [14, 15] \<and>
   dest_segment (buffer example_trimmed) 1 1 2 = [(25 - 1) * 2, (24 - 1) * 2]"
proof -
  let ?m = "margins_of 1 example_image"
  have ret: "assemble (\<lambda>_. 0) 1 example_image = Returned example_trimmed" by code_simp
  have fresh: "assembled example_image = 0" by code_simp
  have vi: "valid_image example_image" by code_simp
  have p: "(0::nat) < nat (numamps_y (fp example_image))" by code_simp
  have k: "(1::nat) < nat (dstAmpY example_image ?m)" by code_simp
  have j0: "(0::nat) < nat (numamps_x (fp example_image))" by code_simp
  have j1: "(1::nat) < nat (numamps_x (fp example_image))" by code_simp
  have x0: "py_index (jpg_ext (fp example_image)) (int 0 * numamps_x (fp example_image) + int 0) = Inr 1"
    by code_simp
  have x1: "py_index (jpg_ext (fp example_image)) (int 0 * numamps_x (fp example_image) + int 1) = Inr 2"
    by code_simp
  have f0: "py_index (amp_cfg (fp example_image)) (1 - 1) = Inr 0" by code_simp
  have f1: "py_index (amp_cfg (fp example_image)) (2 - 1) = Inr 1" by code_simp
  have a0: "py_index (data example_image) (1 - 1) = Inr [10, 11, 12, 13, 14, 15, 16, 17, 18]"
    by code_simp
  have a1: "py_index (data example_image) (2 - 1) = Inr [20, 21, 22, 23, 24, 25, 26, 27, 28]"
    by code_simp
  have off0: "py_index (offsets example_image) (1 - 1) = Inr 0" by code_simp
  have off1: "py_index (offsets example_image) (2 - 1) = Inr 1" by code_simp
  have sc0: "py_index (scales example_image) (1 - 1) = Inr 1" by code_simp
  have sc1: "py_index (scales example_image) (2 - 1) = Inr 2" by code_simp
  have e1: "0 * nat (dstAmpY example_image ?m) + 1 = (1::nat)" by code_simp
  have e2: "nat (dstAmpX example_image ?m) = 2" by code_simp
  have e3: "calibrate 0 1 (if (0::int) = 0
              then trimmed_cols example_image ?m
                     (amp_row example_image [10, 11, 12, 13, 14, 15, 16, 17, 18] (prescan2 ?m + int 1))
              else rev (trimmed_cols example_image ?m
                     (amp_row example_image [10, 11, 12, 13, 14, 15, 16, 17, 18] (prescan2 ?m + int 1))))
            = [14, 15]"
    by code_simp
  have e4: "calibrate 1 2 (if (1::int) = 0
              then trimmed_cols example_image ?m
                     (amp_row example_image [20, 21, 22, 23, 24, 25, 26, 27, 28] (prescan2 ?m + int 1))
              else rev (trimmed_cols example_image ?m
                     (amp_row example_image [20, 21, 22, 23, 24, 25, 26, 27, 28] (prescan2 ?m + int 1))))
            = [(25 - 1) * 2, (24 - 1) * 2]"
    by code_simp
  have z: "(0::int) = 0 \<or> (0::int) = 1" and o: "(1::int) = 0 \<or> (1::int) = 1" by simp_all
  note w0 = assemble_flip_0_1 [OF ret fresh vi refl p k j0 x0 f0 z a0 off0 sc0, unfolded e1 e2 e3]
  note w1 = assemble_flip_0_1 [OF ret fresh vi refl p k j1 x1 f1 o a1 off1 sc1, unfolded e1 e2 e4]
  show ?thesis using w0 w1 ret vi f0 f1 by simp
qed

text \<open>
  C3. Under the same conditions, for an amplifier with flip code 2 the source row is
  \<open>r = numrows_amp - srcLine - overscan2 - 1\<close>, for flip code 3 it is
  \<open>r = numrows_amp - srcLine - prescan2 - 1\<close>, with \<open>srcLine = prescan2 + k\<close>; the destination
  segment is what numpy assigns from the slice that starts at \<open>r * numcols_amp + prescan1\<close>,
  reversed for flip code 3. The row \<open>r\<close> is below \<open>numrows_amp\<close>; it is not negative for flip
  code 2, nor for flip code 3 when \<open>prescan2 \<le> overscan2\<close>; and when it is not negative the
  destination segment is the calibrated segment (reversed for flip code 3) of raw row \<open>r\<close>.
  The margins \<open>prescan2\<close> and \<open>overscan2\<close> are the underscan and overscan rows when trimming,
  else 0.
\<close>

theorem assemble_flip_2_3:
  assumes ret: "assemble mem trm s = Returned s'" and fresh: "assembled s = 0"
    and vi: "valid_image s"
    and m: "m = margins_of trm s"
    and p: "p < nat (numamps_y (fp s))" and k: "k < nat (dstAmpY s m)"
    and j: "j < nat (numamps_x (fp s))"
    and x: "py_index (jpg_ext (fp s)) (int p * numamps_x (fp s) + int j) = Inr x"
    and f: "py_index (amp_cfg (fp s)) (x - 1) = Inr flip"
    and f23: "flip = 2 \<or> flip = 3"
    and a: "py_index (data s) (x - 1) = Inr amp"
    and off: "py_index (offsets s) (x - 1) = Inr off"
    and sc: "py_index (scales s) (x - 1) = Inr sc"
    and r: "r = (if flip = 2
                 then numrows_amp (fp s) - (prescan2 m + int k) - overscan2 m - 1
                 else numrows_amp (fp s) - (prescan2 m + int k) - prescan2 m - 1)"
  shows "dest_segment (buffer s') (p * nat (dstAmpY s m) + k) j (nat (dstAmpX s m))
           = broadcast (nat (dstAmpX s m))
               (calibrate off sc
                 (if flip = 2
                  then py_slice amp (r * numcols_amp (fp s) + prescan1 m)
                         (r * numcols_amp (fp s) + prescan1 m + dstAmpX s m)
                  else rev (py_slice amp (r * numcols_amp (fp s) + prescan1 m)
                              (r * numcols_amp (fp s) + prescan1 m + dstAmpX s m)))) \<and>
         r < numrows_amp (fp s) \<and>
         (flip = 2 \<or> prescan2 m \<le> overscan2 m \<longrightarrow> 0 \<le> r) \<and>
         (0 \<le> r \<longrightarrow>
            dest_segment (buffer s') (p * nat (dstAmpY s m) + k) j (nat (dstAmpX s m))
              = calibrate off sc
                  (if flip = 2 then trimmed_cols s m (amp_row s amp r)
                   else rev (trimmed_cols s m (amp_row s amp r)))) \<and>
         prescan2 m = (if trm = 1 then numrows_underscan (fp s) else 0) \<and>
         overscan2 m = (if trm = 1 then numrows_overscan (fp s) else 0)"
proof -
  let ?sl = "prescan2 m + int k"
  let ?seg = "py_slice amp (r * numcols_amp (fp s) + prescan1 m)
                (r * numcols_amp (fp s) + prescan1 m + dstAmpX s m)"
  let ?dst = "dest_segment (buffer s') (p * nat (dstAmpY s m) + k) j (nat (dstAmpX s m))"
  have vg: "valid_geometry s" using vi by (simp add: valid_image_def)
  have la: "int (length amp) = numcols_amp (fp s) * numrows_amp (fp s)"
    using vi a by (rule valid_image_amp_length)
  have mg: "prescan2 m = (if trm = 1 then numrows_underscan (fp s) else 0)"
    "overscan2 m = (if trm = 1 then numrows_overscan (fp s) else 0)"
    by (simp_all add: m margins_of_def)
  have nn: "0 \<le> prescan2 m" "0 \<le> overscan2 m"
    using vg by (simp_all add: valid_geometry_def mg)
  have kk: "?sl < numrows_amp (fp s) - overscan2 m"
    using k by (simp add: dstAmpY_def)
  have r1: "r < numrows_amp (fp s)" using nn by (simp add: r)
  have r0: "flip = 2 \<or> prescan2 m \<le> overscan2 m \<longrightarrow> 0 \<le> r"
    using kk nn f23 by (auto simp: r)
  have px: "posX s m flip ?sl = r * numcols_amp (fp s) + prescan1 m"
    using f23 by (auto simp: posX_def r)
  have src: "source_segment s m flip amp ?sl = (if flip = 2 then ?seg else rev ?seg)"
    using f23 by (auto simp: source_segment_def px reversed_def)
  note seg = assemble_segment(1) [OF ret fresh vi m p k j x f a off sc]
  have main: "?dst = broadcast (nat (dstAmpX s m))
                       (calibrate off sc (if flip = 2 then ?seg else rev ?seg))"
    using seg by (simp only: src)
  have inr: "?dst = calibrate off sc
                  (if flip = 2 then trimmed_cols s m (amp_row s amp r)
                   else rev (trimmed_cols s m (amp_row s amp r)))"
    if "0 \<le> r"
  proof -
    have sl: "?seg = trimmed_cols s m (amp_row s amp r)"
      by (rule py_slice_row [OF vg m la that r1])
    have ln: "length (trimmed_cols s m (amp_row s amp r)) = nat (dstAmpX s m)"
      by (rule py_slice_row_length [OF vg m la that r1])
    have "length (calibrate off sc (if flip = 2 then ?seg else rev ?seg)) = nat (dstAmpX s m)"
      using ln by (simp add: sl calibrate_def)
    then have "?dst = calibrate off sc (if flip = 2 then ?seg else rev ?seg)"
      using main by (simp only: broadcast_same)
    then show ?thesis by (simp only: sl)
  qed
  show ?thesis using main r1 r0 inr mg by blast
qed

theorem assemble_flip_2_3_witness:
  "assemble (\<lambda>_. 0) 1 example_image = Returned example_trimmed \<and>
   valid_image example_image \<and>
   py_index (amp_cfg (fp example_image)) 2 = Inr 2 \<and>
   py_index (amp_cfg (fp example_image)) 3 = Inr 3 \<and>
   dest_segment (buffer example_trimmed) 2 0 2 = [34 - 2, 35 - 2] \<and>
   dest_segment (buffer example_trimmed) 2 1 2 = [(48 - 3) * 2, (47 - 3) * 2] \<and>
   amp_row example_image [30, 31, 32, 33, 34, 35, 36, 37, 38] 1 = [33, 34, 35] \<and>
   amp_row example_image [40, 41, 42, 43, 44, 45, 46, 47, 48] 2 = [46, 47, 48]"
proof -
  let ?m = "margins_of 1 example_image"
  have ret: "assemble (\<lambda>_. 0) 1 example_image = Returned example_trimmed" by code_simp
  have fresh: "assembled example_image = 0" by code_simp
  have vi: "valid_image example_image" by code_simp
  have p: "(1::nat) < nat (numamps_y (fp example_image))" by code_simp
  have k: "(0::nat) < nat (dstAmpY example_image ?m)" by code_simp
  have j0: "(0::nat) < nat (numamps_x (fp example_image))" by code_simp
  have j1: "(1::nat) < nat (numamps_x (fp example_image))" by code_simp
  have x0: "py_index (jpg_ext (fp example_image)) (int 1 * numamps_x (fp example_image) + int 0) = Inr 3"
    by code_simp
  have x1: "py_index (jpg_ext (fp example_image)) (int 1 * numamps_x (fp example_image) + int 1) = Inr 4"
    by code_simp
  have f0: "py_index (amp_cfg (fp example_image)) (3 - 1) = Inr 2" by code_simp
  have f1: "py_index (amp_cfg (fp example_image)) (4 - 1) = Inr 3" by code_simp
  have a0: "py_index (data example_image) (3 - 1) = Inr [30, 31, 32, 33, 34, 35, 36, 37, 38]"
    by code_simp
  have a1: "py_index (data example_image) (4 - 1) = Inr [40, 41, 42, 43, 44, 45, 46, 47, 48]"
    by code_simp
  have off0: "py_index (offsets example_image) (3 - 1) = Inr 2" by code_simp
  have off1: "py_index (offsets example_image) (4 - 1) = Inr 3" by code_simp
  have sc0: "py_index (scales example_image) (3 - 1) = Inr 1" by code_simp
  have sc1: "py_index (scales example_image) (4 - 1) = Inr 2" by code_simp
  have r2: "(1::int) = (if (2::int) = 2
               then numrows_amp (fp example_image) - (prescan2 ?m + int 0) - overscan2 ?m - 1
               else numrows_amp (fp example_image) - (prescan2 ?m + int 0) - prescan2 ?m - 1)"
    by code_simp
  have r3: "(2::int) = (if (3::int) = 2
               then numrows_amp (fp example_image) - (prescan2 ?m + int 0) - overscan2 ?m - 1
               else numrows_amp (fp example_image) - (prescan2 ?m + int 0) - prescan2 ?m - 1)"
    by code_simp
  have e1: "1 * nat (dstAmpY example_image ?m) + 0 = (2::nat)" by code_simp
  have e2: "nat (dstAmpX example_image ?m) = 2" by code_simp
  have e3: "calibrate 2 1 (if (2::int) = 2
              then trimmed_cols example_image ?m (amp_row example_image [30, 31, 32, 33, 34, 35, 36, 37, 38] 1)
              else rev (trimmed_cols example_image ?m (amp_row example_image [30, 31, 32, 33, 34, 35, 36, 37, 38] 1)))
            = [34 - 2, 35 - 2]"
    by code_simp
  have e4: "calibrate 3 2 (if (3::int) = 2
              then trimmed_cols example_image ?m (amp_row example_image [40, 41, 42, 43, 44, 45, 46, 47, 48] 2)
              else rev (trimmed_cols example_image ?m (amp_row example_image [40, 41, 42, 43, 44, 45, 46, 47, 48] 2)))
            = [(48 - 3) * 2, (47 - 3) * 2]"
    by code_simp
  have t: "(2::int) = 2 \<or> (2::int) = 3" and h: "(3::int) = 2 \<or> (3::int) = 3" by simp_all
  note w0 = assemble_flip_2_3 [OF ret fresh vi refl p k j0 x0 f0 t a0 off0 sc0 r2, unfolded e1 e2 e3]
  note w1 = assemble_flip_2_3 [OF ret fresh vi refl p k j1 x1 f1 h a1 off1 sc1 r3, unfolded e1 e2 e4]
  have ar: "amp_row example_image [30, 31, 32, 33, 34, 35, 36, 37, 38] 1 = [33, 34, 35]"
    "amp_row example_image [40, 41, 42, 43, 44, 45, 46, 47, 48] 2 = [46, 47, 48]"
    by code_simp+
  have d0: "dest_segment (buffer example_trimmed) 2 0 2 = [34 - 2, 35 - 2]"
    using w0 [THEN conjunct2, THEN conjunct2, THEN conjunct2, THEN conjunct1] by simp
  have d1: "dest_segment (buffer example_trimmed) 2 1 2 = [(48 - 3) * 2, (47 - 3) * 2]"
    using w1 [THEN conjunct2, THEN conjunct2, THEN conjunct2, THEN conjunct1] by simp
  show ?thesis using d0 d1 ret vi f0 f1 ar by simp
qed

text \<open>
  C4. After \<open>assemble\<close> has returned on an image of valid geometry that was not assembled
  before, \<open>asmsize\<close> is \<open>(numamps_x * dstAmpX, numamps_y * dstAmpY)\<close>, where with
  \<open>trim == 1\<close> the two extents are the amplifier size less the underscan and overscan, and
  otherwise the amplifier size; the buffer has the shape \<open>(asmsize[1], asmsize[0])\<close>.
\<close>

theorem assemble_shape:
  assumes ret: "assemble mem trm s = Returned s'" and fresh: "assembled s = 0"
    and vg: "valid_geometry s"
  shows "asmsize s' = (numamps_x (fp s) * dstAmpX s (margins_of trm s),
                       numamps_y (fp s) * dstAmpY s (margins_of trm s)) \<and>
         dstAmpX s (margins_of trm s)
           = (if trm = 1
              then numcols_amp (fp s) - numcols_underscan (fp s) - numcols_overscan (fp s)
              else numcols_amp (fp s)) \<and>
         dstAmpY s (margins_of trm s)
           = (if trm = 1
              then numrows_amp (fp s) - numrows_underscan (fp s) - numrows_overscan (fp s)
              else numrows_amp (fp s)) \<and>
         has_shape (buffer s') (nat (snd (asmsize s'))) (nat (fst (asmsize s')))"
proof -
  let ?s1 = "s\<lparr>asmsize := (numcols_image (fp s), numrows_image (fp s))\<rparr>"
  let ?m = "margins_of trm s"
  from ret fresh obtain s2 s3 b where
    a: "alloc_buffer mem ?s1 = Inr s2" and
    sz: "size_buffer trm s2 = Returned s3" and
    f: "finish trm (set_line_attrs (margins_of trm s3) s3\<lparr>buffer := b\<rparr>) = Returned s'"
    by (rule assemble_run)
  note e2 = alloc_buffer_frame [OF a]
  have f2: "fp s2 = fp s" "size_x s2 = size_x s" "size_y s2 = size_y s"
    using arg_cong [OF e2, of fp] arg_cong [OF e2, of size_x] arg_cong [OF e2, of size_y]
    by simp_all
  have vg2: "valid_geometry s2" using vg valid_geometry_cong [of s2 s] f2 by simp
  have m2: "margins_of trm s2 = ?m" by (simp add: margins_of_def f2)
  have d2: "dstAmpX s2 ?m = dstAmpX s ?m" "dstAmpY s2 ?m = dstAmpY s ?m"
    by (simp_all add: dstAmpX_def dstAmpY_def f2)
  have a3: "asmsize s3 = (numamps_x (fp s) * dstAmpX s ?m, numamps_y (fp s) * dstAmpY s ?m)"
    using size_buffer_asmsize [OF sz vg2] by (simp add: m2 d2 f2)
  let ?s4 = "set_line_attrs (margins_of trm s3) s3\<lparr>buffer := b\<rparr>"
  have a4: "asmsize ?s4 = asmsize s3" by (simp add: set_line_attrs_def)
  from f obtain b' where rs: "reshape (buffer ?s4) (snd (asmsize ?s4)) (fst (asmsize ?s4)) = Inr b'"
    and bs: "buffer s' = b'" and as: "asmsize s' = asmsize ?s4"
    by (cases "reshape (buffer ?s4) (snd (asmsize ?s4)) (fst (asmsize ?s4))")
       (auto simp: finish_def Let_def split: if_splits)
  have nn: "0 \<le> numamps_x (fp s) * dstAmpX s ?m" "0 \<le> numamps_y (fp s) * dstAmpY s ?m"
    using valid_geometry_nonneg [OF vg, of trm] by simp_all
  have sh: "has_shape (buffer s') (nat (snd (asmsize s'))) (nat (fst (asmsize s')))"
    using reshape_shape [OF rs] nn by (simp add: bs as a4 a3)
  have dd: "dstAmpX s ?m
           = (if trm = 1
              then numcols_amp (fp s) - numcols_underscan (fp s) - numcols_overscan (fp s)
              else numcols_amp (fp s))"
    "dstAmpY s ?m
           = (if trm = 1
              then numrows_amp (fp s) - numrows_underscan (fp s) - numrows_overscan (fp s)
              else numrows_amp (fp s))"
    by (simp_all add: dstAmpX_def dstAmpY_def margins_of_def)
  have "asmsize s' = (numamps_x (fp s) * dstAmpX s ?m, numamps_y (fp s) * dstAmpY s ?m)"
    by (simp add: as a4 a3)
  then show ?thesis using dd sh by (intro conjI)
qed

theorem assemble_shape_witness:
  "valid_geometry example_image \<and>
   assemble (\<lambda>_. 0) 1 example_image = Returned example_trimmed \<and>
   asmsize example_trimmed = (2 * (3 - 1 - 0), 2 * (3 - 0 - 1)) \<and>
   has_shape (buffer example_trimmed) 4 4 \<and>
   assemble (\<lambda>_. 0) 0 example_image = Returned example_untrimmed \<and>
   asmsize example_untrimmed = (2 * 3, 2 * 3) \<and>
   has_shape (buffer example_untrimmed) 6 6"
proof -
  have ret1: "assemble (\<lambda>_. 0) 1 example_image = Returned example_trimmed" by code_simp
  have ret0: "assemble (\<lambda>_. 0) 0 example_image = Returned example_untrimmed" by code_simp
  have fresh: "assembled example_image = 0" by code_simp
  have vg: "valid_geometry example_image" by code_simp
  have e1: "asmsize example_trimmed = (4, 4)" by code_simp
  have e0: "asmsize example_untrimmed = (6, 6)" by code_simp
  note w1 = assemble_shape [OF ret1 fresh vg, unfolded e1]
  note w0 = assemble_shape [OF ret0 fresh vg, unfolded e0]
  show ?thesis using w1 w0 ret1 ret0 vg e1 e0 by simp
qed

text \<open>
  C7. For an amplifier whose flip code is none of 0, 1, 2, 3, the copy step raises
  nothing: it leaves the buffer and the column cursor as they are, and the loop over the
  amplifiers of a line gives what it gives without that amplifier. \<open>assemble\<close> has no
  error for a flip code: on the example image with the flip code 4 for its second
  amplifier, \<open>assemble\<close> returns, as evaluated after the general statement.
\<close>

theorem copy_ext_other_flip:
  assumes x: "py_index (jpg_ext (fp s)) c = Inr x"
    and f: "py_index (amp_cfg (fp s)) (x - 1) = Inr flip"
    and nf: "flip \<noteq> 0 \<and> flip \<noteq> 1 \<and> flip \<noteq> 2 \<and> flip \<noteq> 3"
  shows "copy_ext s m line srcLine c st = (None, st) \<and>
         py_for (cs1 @ c # cs2) (copy_ext s m line srcLine) st0
           = py_for (cs1 @ cs2) (copy_ext s m line srcLine) st0"
proof -
  have skip: "copy_ext s m line srcLine c st = (None, st)" for st
    using x f nf by (cases st) (simp add: copy_ext_def)
  obtain r1 t1 where a: "py_for cs1 (copy_ext s m line srcLine) st0 = (r1, t1)"
    by (cases "py_for cs1 (copy_ext s m line srcLine) st0")
  have "py_for (cs1 @ c # cs2) (copy_ext s m line srcLine) st0
           = py_for (cs1 @ cs2) (copy_ext s m line srcLine) st0"
    using a skip [of t1] by (cases r1) (simp_all add: py_for_append)
  then show ?thesis using skip by simp
qed

theorem copy_ext_other_flip_witness:
  "py_index (jpg_ext (fp flip4_image)) 1 = Inr 2 \<and>
   py_index (amp_cfg (fp flip4_image)) (2 - 1) = Inr 4 \<and>
   copy_ext flip4_image (margins_of 1 flip4_image) 0 0 1 (Grid [[11, 12, 0, 0]], 2)
     = (None, (Grid [[11, 12, 0, 0]], 2)) \<and>
   py_for ([0] @ 1 # []) (copy_ext flip4_image (margins_of 1 flip4_image) 0 0) (Grid [[0, 0, 0, 0]], 0)
     = (None, (Grid [[11, 12, 0, 0]], 2))"
proof -
  have x: "py_index (jpg_ext (fp flip4_image)) 1 = Inr 2" by code_simp
  have f: "py_index (amp_cfg (fp flip4_image)) (2 - 1) = Inr 4" by code_simp
  have nf: "(4::int) \<noteq> 0 \<and> (4::int) \<noteq> 1 \<and> (4::int) \<noteq> 2 \<and> (4::int) \<noteq> 3" by simp
  have e: "py_for ([0] @ []) (copy_ext flip4_image (margins_of 1 flip4_image) 0 0) (Grid [[0, 0, 0, 0]], 0)
             = (None, (Grid [[11, 12, 0, 0]], 2))"
    by code_simp
  note w = copy_ext_other_flip [OF x f nf, of "margins_of 1 flip4_image" 0 0
      "(Grid [[11, 12, 0, 0]], 2)" "[0]" "[]" "(Grid [[0, 0, 0, 0]], 0)"]
  show ?thesis using w x f e by simp
qed

theorem assemble_flip_code_counterexample:
  "py_index (amp_cfg (fp flip4_image)) 1 = Inr 4 \<and>
   assemble (\<lambda>_. 0) 1 flip4_image = Returned flip4_assembled \<and>
   assembled flip4_assembled = 1"
  by code_simp

text \<open>
  C8. \<open>set_scaling\<close> with both sequences given compares their lengths with nothing but
  the number of rows of \<open>data\<close>: it returns exactly when the amplifier count is not negative
  and the number of rows of \<open>data\<close> exceeds neither the amplifier count nor the length of
  either sequence; it then stores the first entries of each and ignores the others. A
  call with five gains and four offsets that returns is evaluated after the general
  statement.
\<close>

theorem set_scaling_lengths:
  "set_scaling (Some g) (Some v) s = Returned s' \<longleftrightarrow>
     0 \<le> numamps_image (fp s) \<and>
     length (data s) \<le> nat (numamps_image (fp s)) \<and>
     length (data s) \<le> length g \<and> length (data s) \<le> length v \<and>
     s' = s\<lparr>num_extensions := Some (numamps_image (fp s)),
            scales := take (length (data s)) g
                        @ replicate (nat (numamps_image (fp s)) - length (data s)) 1,
            offsets := take (length (data s)) v
                        @ replicate (nat (numamps_image (fp s)) - length (data s)) 0\<rparr>"
proof (cases "numamps_image (fp s) < 0")
  case True
  then show ?thesis by (simp add: set_scaling_def Let_def)
next
  case False
  define N where "N = nat (numamps_image (fp s))"
  define s3 where "s3 = s\<lparr>num_extensions := Some (numamps_image (fp s)),
      scales := replicate N 1, offsets := replicate N 0\<rparr>"
  have s3: "scales s3 = replicate N 1" "offsets s3 = replicate N 0" "data s3 = data s"
    by (simp_all add: s3_def)
  obtain r t where loop: "py_for (py_range 0 (int (length (data s)))) (set_chan g v) s3 = (r, t)"
    by (cases "py_for (py_range 0 (int (length (data s)))) (set_chan g v) s3")
  have ss: "set_scaling (Some g) (Some v) s = (case r of Some e \<Rightarrow> Raised e t | None \<Rightarrow> Returned t)"
    using False loop unfolding set_scaling_def Let_def s3_def N_def by (cases r) simp_all
  have "set_scaling (Some g) (Some v) s = Returned s' \<longleftrightarrow>
          py_for (py_range 0 (int (length (data s)))) (set_chan g v) s3 = (None, s')"
    using loop by (cases r) (auto simp: ss)
  also have "\<dots> \<longleftrightarrow> length (data s) \<le> length g \<and> length (data s) \<le> length v \<and>
        length (data s) \<le> N \<and>
        s' = s3\<lparr>scales := take (length (data s)) g @ replicate (N - length (data s)) 1,
                offsets := take (length (data s)) v @ replicate (N - length (data s)) 0\<rparr>"
    by (rule set_scaling_loop [OF s3(1,2)])
  finally show ?thesis using False by (auto simp: s3_def N_def)
qed

theorem set_scaling_lengths_counterexample:
  "length [2, 2, 2, 2, 9 :: real] \<noteq> length [1, 1, 1, 1 :: real] \<and>
   set_scaling (Some [2, 2, 2, 2, 9]) (Some [1, 1, 1, 1]) example_image
     = Returned (example_image\<lparr>scales := [2, 2, 2, 2], offsets := [1, 1, 1, 1]\<rparr>)"
  by code_simp

theorem set_scaling_lengths_witness:
  "set_scaling (Some [2, 2, 2, 2, 9]) (Some [1, 1, 1, 1]) example_image
     = Returned (example_image\<lparr>scales := [2, 2, 2, 2], offsets := [1, 1, 1, 1]\<rparr>) \<and>
   (\<forall>s'. set_scaling (Some [2, 2, 2]) (Some [1, 1, 1, 1]) example_image \<noteq> Returned s') \<and>
   set_scaling (Some [2, 2, 2]) (Some [1, 1, 1, 1]) example_image
     = Raised IndexError (example_image\<lparr>scales := [2, 2, 2, 1], offsets := [1, 1, 1, 0]\<rparr>)"
proof -
  have d: "length (data example_image) = 4" by code_simp
  have n: "numamps_image (fp example_image) = 4" by code_simp
  have e: "example_image\<lparr>num_extensions := Some 4\<rparr> = example_image" by code_simp
  have a: "set_scaling (Some [2, 2, 2, 2, 9]) (Some [1, 1, 1, 1]) example_image
     = Returned (example_image\<lparr>scales := [2, 2, 2, 2], offsets := [1, 1, 1, 1]\<rparr>)"
    using set_scaling_lengths [of "[2, 2, 2, 2, 9]" "[1, 1, 1, 1]" example_image
        "example_image\<lparr>scales := [2, 2, 2, 2], offsets := [1, 1, 1, 1]\<rparr>"]
    by (simp add: d n e)
  have b: "set_scaling (Some [2, 2, 2]) (Some [1, 1, 1, 1]) example_image \<noteq> Returned s'" for s'
    using set_scaling_lengths [of "[2, 2, 2]" "[1, 1, 1, 1]" example_image s']
    by (simp add: d n)
  have c: "set_scaling (Some [2, 2, 2]) (Some [1, 1, 1, 1]) example_image
     = Raised IndexError (example_image\<lparr>scales := [2, 2, 2, 1], offsets := [1, 1, 1, 0]\<rparr>)"
    by code_simp
  show ?thesis using a b c by blast
qed

text \<open>
  C10. The flag \<open>trimmed\<close> after an untrimmed assembly that follows a trimmed one: the
  example image is assembled with \<open>trim = 1\<close>, a file is read into it (which clears
  \<open>assembled\<close>), and it is assembled again with \<open>trim = 0\<close>. The second assembly returns,
  sets \<open>assembled\<close>, gives the full size (6, 6), and \<open>trimmed\<close> is still 1.
\<close>

theorem assemble_trimmed_stale:
  "assemble (\<lambda>_. 0) 1 example_image = Returned example_trimmed \<and>
   trimmed example_trimmed = 1 \<and>
   read_fits_file (\<lambda>_. 0) example_decoded example_trimmed = Returned example_reread \<and>
   assembled example_reread = 0 \<and>
   returned (assemble (\<lambda>_. 0) 0 example_reread) \<and>
   assembled (final_state (assemble (\<lambda>_. 0) 0 example_reread)) = 1 \<and>
   asmsize (final_state (assemble (\<lambda>_. 0) 0 example_reread)) = (6, 6) \<and>
   trimmed (final_state (assemble (\<lambda>_. 0) 0 example_reread)) = 1"
  by code_simp

end
